theory Spec2Isabelle
  imports Main
begin

section \<open>Data model of \<^verbatim>\<open>stack_graph.go\<close>\<close>

text \<open>
  A \<^verbatim>\<open>resource.URN\<close> and a \<^verbatim>\<open>resource.PropertyKey\<close> are Go strings. Pointers are
  addresses into an object store: a \<^verbatim>\<open>*dependencyVertex\<close> is the index of the vertex in the
  vertex store, a \<^verbatim>\<open>graph.Edge\<close> held in an edge list is the index of the edge object in
  the edge store, and \<^verbatim>\<open>nil\<close> is \<open>None\<close>. Two references denote the same object exactly
  when they are the same index.
\<close>

type_synonym URN = string
type_synonym PropertyKey = string
type_synonym vptr = nat
type_synonym eptr = nat

text \<open>
  The fields of \<^verbatim>\<open>resource.State\<close> that the graph builder reads. \<^verbatim>\<open>PropertyDependencies\<close>
  is a Go map; it is kept as the list of its entries in the order in which the
  \<^verbatim>\<open>range\<close> loop of line 274 visits them in the run at hand.
\<close>

record State =
  URN :: URN
  Dependencies :: "URN list"
  PropertyDependencies :: "(PropertyKey \<times> URN list) list"
  Parent :: URN

record graphCommandOptions =
  stackName :: string
  ignoreParentEdges :: bool
  ignoreDependencyEdges :: bool
  dependencyEdgeColor :: string
  parentEdgeColor :: string
  shortNodeName :: bool
  dotFragment :: string

text \<open>
  The two edge structs behind the \<^verbatim>\<open>graph.Edge\<close> interface. A nil \<^verbatim>\<open>labels\<close> slice and an
  empty one are both \<open>[]\<close>: the code never compares the slice with nil.
\<close>

datatype edge =
  isDependencyEdge: dependencyEdge (edge_to: "vptr option") (edge_from: "vptr option")
                 (labels: "string list") (edge_color: string)
| isParentEdge: parentEdge (edge_to: "vptr option") (edge_from: "vptr option") (edge_color: string)

text \<open>\<^verbatim>\<open>strings.Join\<close>\<close>

fun Join :: "string list \<Rightarrow> string \<Rightarrow> string" where
  "Join [] sep = []"
| "Join [x] sep = x"
| "Join (x # y # ys) sep = x @ sep @ Join (y # ys) sep"

fun Label :: "edge \<Rightarrow> string" where
  "Label (dependencyEdge t f ls c) = Join ls '', ''"
| "Label (parentEdge t f c) = []"

fun To :: "edge \<Rightarrow> vptr option" where
  "To (dependencyEdge t f ls c) = t"
| "To (parentEdge t f c) = t"

fun From :: "edge \<Rightarrow> vptr option" where
  "From (dependencyEdge t f ls c) = f"
| "From (parentEdge t f c) = f"

fun Color :: "edge \<Rightarrow> string" where
  "Color (dependencyEdge t f ls c) = c"
| "Color (parentEdge t f c) = c"

text \<open>
  A \<^verbatim>\<open>dependencyVertex\<close>. Its \<^verbatim>\<open>graph\<close> field always points to the one graph under
  construction (line 261), so it is not stored: \<^verbatim>\<open>vertex.graph.vertices\<close> is the map of
  that graph. The \<^verbatim>\<open>resource\<close> pointer is only read, so the record is kept by value.
\<close>

record dependencyVertex =
  resource :: State
  incomingEdges :: "eptr list"
  outgoingEdges :: "eptr list"
  useShortName :: bool

text \<open>
  A \<^verbatim>\<open>dependencyGraph\<close>: the map from URNs to vertex pointers, together with the vertex
  objects and the edge objects that the pointers refer to.
\<close>

record dependencyGraph =
  vertices :: "URN \<rightharpoonup> vptr"
  vertexStore :: "dependencyVertex list"
  edgeStore :: "edge list"

datatype panic = NilPointerDereference

section \<open>\<^verbatim>\<open>Roots\<close>\<close>

text \<open>
  The \<^verbatim>\<open>range\<close> loop over \<^verbatim>\<open>dg.vertices\<close> visits the entries of a Go map in an order
  that the language leaves open. The order of a run is a parameter: the list of keys in
  the order visited. \<open>rangeOrder m ks\<close> says that \<open>ks\<close> is such an order for the map \<open>m\<close>.
  The root edges are fresh objects that no vertex refers to; they are returned by value.
  A list entry that is not a key of the map stands for no iteration and is skipped.
\<close>

definition rangeOrder :: "(URN \<rightharpoonup> vptr) \<Rightarrow> URN list \<Rightarrow> bool" where
  "rangeOrder m ks \<longleftrightarrow> distinct ks \<and> set ks = dom m"

fun Roots :: "dependencyGraph \<Rightarrow> URN list \<Rightarrow> edge list" where
  "Roots dg [] = []"
| "Roots dg (k # ks) =
     (case vertices dg k of
        None \<Rightarrow> Roots dg ks
      | Some vertex \<Rightarrow> dependencyEdge (Some vertex) None [] [] # Roots dg ks)"

section \<open>\<^verbatim>\<open>makeDependencyGraph\<close>\<close>

definition emptyGraph :: dependencyGraph where
  "emptyGraph = \<lparr>vertices = Map.empty, vertexStore = [], edgeStore = []\<rparr>"

definition newVertex :: "graphCommandOptions \<Rightarrow> State \<Rightarrow> dependencyVertex" where
  "newVertex opts r =
     \<lparr>resource = r, incomingEdges = [], outgoingEdges = [], useShortName = shortNodeName opts\<rparr>"

text \<open>Lines 259 to 267: one vertex object per resource record, stored under the record's URN.\<close>

fun allocVertices ::
  "graphCommandOptions \<Rightarrow> State list \<Rightarrow> dependencyGraph \<Rightarrow> dependencyGraph" where
  "allocVertices opts [] dg = dg"
| "allocVertices opts (r # rs) dg =
     allocVertices opts rs
       (dg\<lparr>vertexStore := vertexStore dg @ [newVertex opts r],
           vertices := (vertices dg)(URN r \<mapsto> length (vertexStore dg))\<rparr>)"

text \<open>
  Lines 273 to 278: \<^verbatim>\<open>depBlame\<close>. A key that is not in the Go map reads as the nil slice,
  so the map is a total function with default \<open>[]\<close>.
\<close>

fun blameDeps :: "PropertyKey \<Rightarrow> URN list \<Rightarrow> (URN \<Rightarrow> string list) \<Rightarrow> URN \<Rightarrow> string list" where
  "blameDeps k [] b = b"
| "blameDeps k (dep # deps) b = blameDeps k deps (b(dep := b dep @ [k]))"

fun depBlame :: "(PropertyKey \<times> URN list) list \<Rightarrow> (URN \<Rightarrow> string list) \<Rightarrow> URN \<Rightarrow> string list" where
  "depBlame [] b = b"
| "depBlame ((k, deps) # ps) b = depBlame ps (blameDeps k deps b)"

definition appendIncoming :: "vptr \<Rightarrow> eptr \<Rightarrow> dependencyGraph \<Rightarrow> dependencyGraph" where
  "appendIncoming v e dg =
     dg\<lparr>vertexStore := (vertexStore dg)
          [v := (vertexStore dg ! v)\<lparr>incomingEdges := incomingEdges (vertexStore dg ! v) @ [e]\<rparr>]\<rparr>"

definition appendOutgoing :: "vptr \<Rightarrow> eptr \<Rightarrow> dependencyGraph \<Rightarrow> dependencyGraph" where
  "appendOutgoing v e dg =
     dg\<lparr>vertexStore := (vertexStore dg)
          [v := (vertexStore dg ! v)\<lparr>outgoingEdges := outgoingEdges (vertexStore dg ! v) @ [e]\<rparr>]\<rparr>"

definition allocEdge :: "edge \<Rightarrow> dependencyGraph \<Rightarrow> dependencyGraph" where
  "allocEdge e dg = dg\<lparr>edgeStore := edgeStore dg @ [e]\<rparr>"

text \<open>
  Lines 282 to 287. The edge object is allocated and appended to the incoming list of the
  current vertex before \<^verbatim>\<open>vertexWeDependOn.outgoingEdges\<close> is read; when the lookup of
  line 283 missed, that read dereferences nil and the function panics.
\<close>

fun addDependencyEdges ::
  "graphCommandOptions \<Rightarrow> (URN \<Rightarrow> string list) \<Rightarrow> vptr \<Rightarrow> URN list \<Rightarrow> dependencyGraph
     \<Rightarrow> panic + dependencyGraph" where
  "addDependencyEdges opts blame vertex [] dg = Inr dg"
| "addDependencyEdges opts blame vertex (dep # deps) dg =
     (let vertexWeDependOn = vertices dg dep;
          e = length (edgeStore dg);
          dg1 = allocEdge (dependencyEdge (Some vertex) vertexWeDependOn (blame dep)
                             (dependencyEdgeColor opts)) dg;
          dg2 = appendIncoming vertex e dg1
      in case vertexWeDependOn of
           None \<Rightarrow> Inl NilPointerDereference
         | Some w \<Rightarrow> addDependencyEdges opts blame vertex deps (appendOutgoing w e dg2))"

text \<open>Lines 293 to 302. A parent that is not in the map gives an edge whose \<^verbatim>\<open>to\<close> is nil.\<close>

definition addParentEdge :: "graphCommandOptions \<Rightarrow> vptr \<Rightarrow> dependencyGraph \<Rightarrow> dependencyGraph" where
  "addParentEdge opts vertex dg =
     (let parent = Parent (resource (vertexStore dg ! vertex)) in
      if parent \<noteq> [] then
        (let parentVertex = vertices dg parent;
             e = length (edgeStore dg)
         in appendOutgoing vertex e
              (allocEdge (parentEdge parentVertex (Some vertex) (parentEdgeColor opts)) dg))
      else dg)"

text \<open>The body of the loop of line 269 for one vertex.\<close>

definition linkVertex :: "graphCommandOptions \<Rightarrow> vptr \<Rightarrow> dependencyGraph \<Rightarrow> panic + dependencyGraph" where
  "linkVertex opts vertex dg =
     (case (if \<not> ignoreDependencyEdges opts
            then addDependencyEdges opts
                   (depBlame (PropertyDependencies (resource (vertexStore dg ! vertex))) (\<lambda>_. []))
                   vertex (Dependencies (resource (vertexStore dg ! vertex))) dg
            else Inr dg) of
        Inl p \<Rightarrow> Inl p
      | Inr dg1 \<Rightarrow> Inr (if \<not> ignoreParentEdges opts then addParentEdge opts vertex dg1 else dg1))"

text \<open>
  The loop of line 269, visiting the keys of \<^verbatim>\<open>dg.vertices\<close> in the given order. The order
  of a run lists every key of the map once (\<open>visitOrder\<close> below); a list entry that is not a
  key of the map stands for no iteration and is skipped.
\<close>

fun linkVertices :: "graphCommandOptions \<Rightarrow> URN list \<Rightarrow> dependencyGraph \<Rightarrow> panic + dependencyGraph" where
  "linkVertices opts [] dg = Inr dg"
| "linkVertices opts (k # ks) dg =
     (case vertices dg k of
        None \<Rightarrow> linkVertices opts ks dg
      | Some vertex \<Rightarrow>
          (case linkVertex opts vertex dg of
             Inl p \<Rightarrow> Inl p
           | Inr dg' \<Rightarrow> linkVertices opts ks dg'))"

definition makeDependencyGraph ::
  "State list \<Rightarrow> graphCommandOptions \<Rightarrow> URN list \<Rightarrow> panic + dependencyGraph" where
  "makeDependencyGraph snapshot opts order =
     linkVertices opts order (allocVertices opts snapshot emptyGraph)"

text \<open>
  \<open>visitOrder snapshot order\<close>: \<open>order\<close> is an order in which the loop of line 269 may visit
  the map that the loop of line 259 has filled.
\<close>

definition visitOrder :: "State list \<Rightarrow> URN list \<Rightarrow> bool" where
  "visitOrder snapshot order \<longleftrightarrow> distinct order \<and> set order = set (map URN snapshot)"

section \<open>The \<^verbatim>\<open>graph\<close> command\<close>

text \<open>
  The body of \<^verbatim>\<open>RunE\<close> (lines 69 to 113). The collaborators outside this file are given by
  their results: the error of \<^verbatim>\<open>RequireStack\<close>, the result of \<^verbatim>\<open>s.Snapshot\<close> (an error, or
  a snapshot pointer that may be nil), the errors of \<^verbatim>\<open>os.Create\<close>, \<^verbatim>\<open>dotconv.Print\<close> and
  \<^verbatim>\<open>file.Close\<close>, and the order in which the map of vertices is visited. The command
  returns the list of the actions it performed, in order, and its outcome.
  \<open>SnapshotNotFound name\<close> is the error of line 95, whose message quotes \<open>name\<close>.
\<close>

datatype cmdError = External string | SnapshotNotFound string

datatype outcome = Success | Failure cmdError | Panicked panic

datatype action =
  BuildGraph | CreateFile string | PrintGraph dependencyGraph string | CloseFile
| PrintMessage string

record collaborators =
  requireStackErr :: "string option"
  snapshotResult :: "string + State list option"
  createErr :: "string option"
  printErr :: "string option"
  closeErr :: "string option"
  mapOrder :: "URN list"

definition runGraphCmd ::
  "graphCommandOptions \<Rightarrow> string \<Rightarrow> collaborators \<Rightarrow> action list \<times> outcome" where
  "runGraphCmd cmdOpts filename env =
     (case requireStackErr env of
        Some err \<Rightarrow> ([], Failure (External err))
      | None \<Rightarrow>
     (case snapshotResult env of
        Inl err \<Rightarrow> ([], Failure (External err))
      | Inr None \<Rightarrow> ([], Failure (SnapshotNotFound (stackName cmdOpts)))
      | Inr (Some snap) \<Rightarrow>
     (case makeDependencyGraph snap cmdOpts (mapOrder env) of
        Inl p \<Rightarrow> ([BuildGraph], Panicked p)
      | Inr dg \<Rightarrow>
     (case createErr env of
        Some err \<Rightarrow> ([BuildGraph, CreateFile filename], Failure (External err))
      | None \<Rightarrow>
     (case printErr env of
        Some err \<Rightarrow>
          ([BuildGraph, CreateFile filename, PrintGraph dg (dotFragment cmdOpts), CloseFile],
           Failure (External err))
      | None \<Rightarrow>
          ([BuildGraph, CreateFile filename, PrintGraph dg (dotFragment cmdOpts),
            PrintMessage filename, CloseFile],
           (case closeErr env of Some err \<Rightarrow> Failure (External err) | None \<Rightarrow> Success)))))))"

section \<open>A concrete stack\<close>

text \<open>
  The snapshot of three resources used for the concrete checks: \<open>A\<close> has no references,
  \<open>B\<close> depends on \<open>A\<close> through its property \<open>input\<close>, and the parent of \<open>C\<close> is \<open>B\<close>. The
  options are the defaults of the command's flags. \<open>exampleGraph\<close> is the graph built from
  it when the second loop visits \<open>A\<close>, \<open>B\<close>, \<open>C\<close> in this order.
\<close>

definition exampleOptions :: graphCommandOptions where
  "exampleOptions =
     \<lparr>stackName = ''dev'', ignoreParentEdges = False, ignoreDependencyEdges = False,
      dependencyEdgeColor = ''#246C60'', parentEdgeColor = ''#AA6639'',
      shortNodeName = False, dotFragment = []\<rparr>"

definition resourceA :: State where
  "resourceA = \<lparr>URN = ''A'', Dependencies = [], PropertyDependencies = [], Parent = []\<rparr>"

definition resourceB :: State where
  "resourceB = \<lparr>URN = ''B'', Dependencies = [''A''],
                 PropertyDependencies = [(''input'', [''A''])], Parent = []\<rparr>"

definition resourceC :: State where
  "resourceC = \<lparr>URN = ''C'', Dependencies = [], PropertyDependencies = [], Parent = ''B''\<rparr>"

definition exampleSnapshot :: "State list" where
  "exampleSnapshot = [resourceA, resourceB, resourceC]"

definition exampleGraph :: dependencyGraph where
  "exampleGraph =
     \<lparr>vertices = [''A'' \<mapsto> 0, ''B'' \<mapsto> 1, ''C'' \<mapsto> 2],
      vertexStore =
        [\<lparr>resource = resourceA, incomingEdges = [], outgoingEdges = [0], useShortName = False\<rparr>,
         \<lparr>resource = resourceB, incomingEdges = [0], outgoingEdges = [], useShortName = False\<rparr>,
         \<lparr>resource = resourceC, incomingEdges = [], outgoingEdges = [1], useShortName = False\<rparr>],
      edgeStore =
        [dependencyEdge (Some 1) (Some 0) [''input''] ''#246C60'',
         parentEdge (Some 1) (Some 2) ''#AA6639'']\<rparr>"

section \<open>The edges of a built graph\<close>

text \<open>
  Auxiliary notions for the proofs. \<open>insOf es v\<close> lists the references to the dependency
  edges of the store \<open>es\<close> whose \<^verbatim>\<open>to\<close> is the vertex \<open>v\<close>, and \<open>outsOf es v\<close> the references
  to the edges whose \<^verbatim>\<open>from\<close> is \<open>v\<close>, both in the order of allocation. \<open>indexed dg\<close> says
  that the edge lists of every vertex object are these lists.
\<close>

definition insOf :: "edge list \<Rightarrow> vptr \<Rightarrow> eptr list" where
  "insOf es v = filter (\<lambda>e. isDependencyEdge (es ! e) \<and> edge_to (es ! e) = Some v) [0..<length es]"

definition outsOf :: "edge list \<Rightarrow> vptr \<Rightarrow> eptr list" where
  "outsOf es v = filter (\<lambda>e. edge_from (es ! e) = Some v) [0..<length es]"

definition indexed :: "dependencyGraph \<Rightarrow> bool" where
  "indexed dg \<longleftrightarrow>
     (\<forall>v<length (vertexStore dg).
        incomingEdges (vertexStore dg ! v) = insOf (edgeStore dg) v \<and>
        outgoingEdges (vertexStore dg ! v) = outsOf (edgeStore dg) v)"

text \<open>
  The edge objects that the loop body allocates for the vertex \<open>v\<close> of the record \<open>r\<close>, in
  the order of allocation, when no lookup panics; \<open>m\<close> is the map of vertices.
\<close>

definition dependencyEdgesOf ::
  "graphCommandOptions \<Rightarrow> (URN \<rightharpoonup> vptr) \<Rightarrow> vptr \<Rightarrow> State \<Rightarrow> edge list" where
  "dependencyEdgesOf opts m v r =
     map (\<lambda>d. dependencyEdge (Some v) (m d) (depBlame (PropertyDependencies r) (\<lambda>_. []) d)
                (dependencyEdgeColor opts))
         (Dependencies r)"

definition parentEdgesOf ::
  "graphCommandOptions \<Rightarrow> (URN \<rightharpoonup> vptr) \<Rightarrow> vptr \<Rightarrow> State \<Rightarrow> edge list" where
  "parentEdgesOf opts m v r =
     (if Parent r \<noteq> [] then [parentEdge (m (Parent r)) (Some v) (parentEdgeColor opts)] else [])"

definition edgesOf ::
  "graphCommandOptions \<Rightarrow> (URN \<rightharpoonup> vptr) \<Rightarrow> vptr \<Rightarrow> State \<Rightarrow> edge list" where
  "edgesOf opts m v r =
     (if \<not> ignoreDependencyEdges opts then dependencyEdgesOf opts m v r else []) @
     (if \<not> ignoreParentEdges opts then parentEdgesOf opts m v r else [])"

definition edgesOfKeys ::
  "graphCommandOptions \<Rightarrow> (URN \<rightharpoonup> vptr) \<Rightarrow> State list \<Rightarrow> URN list \<Rightarrow> edge list" where
  "edgesOfKeys opts m rs ks =
     concat (map (\<lambda>k. case m k of None \<Rightarrow> [] | Some v \<Rightarrow> edgesOf opts m v (rs ! v)) ks)"

section \<open>The vertices allocated by the first loop\<close>

lemma allocVertices_store:
  "vertexStore (allocVertices opts rs dg) = vertexStore dg @ map (newVertex opts) rs"
  by (induction rs arbitrary: dg) simp_all

lemma allocVertices_edges: "edgeStore (allocVertices opts rs dg) = edgeStore dg"
  by (induction rs arbitrary: dg) simp_all

lemma allocVertices_dom:
  "dom (vertices (allocVertices opts rs dg)) = dom (vertices dg) \<union> set (map URN rs)"
  by (induction rs arbitrary: dg) auto

lemma allocVertices_lookup:
  "vertices (allocVertices opts rs dg) k = Some v \<Longrightarrow>
     (k \<notin> set (map URN rs) \<and> vertices dg k = Some v) \<or>
     (\<exists>i<length rs. v = length (vertexStore dg) + i \<and> URN (rs ! i) = k \<and>
        (\<forall>j. i < j \<and> j < length rs \<longrightarrow> URN (rs ! j) \<noteq> k))"
proof (induction rs arbitrary: dg)
  case Nil
  then show ?case by simp
next
  case (Cons r rs)
  let ?dg = "dg\<lparr>vertexStore := vertexStore dg @ [newVertex opts r],
           vertices := (vertices dg)(URN r \<mapsto> length (vertexStore dg))\<rparr>"
  from Cons.prems have "vertices (allocVertices opts rs ?dg) k = Some v" by simp
  from Cons.IH [OF this] consider
    (old) "k \<notin> set (map URN rs)" "vertices ?dg k = Some v"
  | (new) i where "i < length rs" "v = length (vertexStore ?dg) + i" "URN (rs ! i) = k"
      "\<forall>j. i < j \<and> j < length rs \<longrightarrow> URN (rs ! j) \<noteq> k"
    by blast
  then show ?case
  proof cases
    case old
    show ?thesis
    proof (cases "k = URN r")
      case True
      with old have v: "v = length (vertexStore dg)" by simp
      have "\<forall>j. 0 < j \<and> j < length (r # rs) \<longrightarrow> URN ((r # rs) ! j) \<noteq> k"
      proof (intro allI impI)
        fix j assume j: "0 < j \<and> j < length (r # rs)"
        then obtain j' where "j = Suc j'" "j' < length rs" by (cases j) auto
        with old(1) nth_mem [of j' rs] show "URN ((r # rs) ! j) \<noteq> k" by auto
      qed
      with True v show ?thesis by (intro disjI2 exI [of _ 0]) simp
    next
      case False
      with old show ?thesis by simp
    qed
  next
    case new
    have "\<forall>j. Suc i < j \<and> j < length (r # rs) \<longrightarrow> URN ((r # rs) ! j) \<noteq> k"
    proof (intro allI impI)
      fix j assume j: "Suc i < j \<and> j < length (r # rs)"
      then obtain j' where "j = Suc j'" "i < j'" "j' < length rs" by (cases j) auto
      with new(4) show "URN ((r # rs) ! j) \<noteq> k" by simp
    qed
    with new show ?thesis by (intro disjI2 exI [of _ "Suc i"]) simp
  qed
qed

section \<open>Frame and edge lemmas of the second loop\<close>

lemma map_update_same: "f y = f (xs ! v) \<Longrightarrow> map f (xs[v := y]) = map f xs"
  by (induction xs arbitrary: v) (auto split: nat.splits)

lemma allocEdge_fields [simp]:
  "vertices (allocEdge x dg) = vertices dg"
  "vertexStore (allocEdge x dg) = vertexStore dg"
  "edgeStore (allocEdge x dg) = edgeStore dg @ [x]"
  by (simp_all add: allocEdge_def)

lemma appendIncoming_fields [simp]:
  "vertices (appendIncoming v e dg) = vertices dg"
  "edgeStore (appendIncoming v e dg) = edgeStore dg"
  "length (vertexStore (appendIncoming v e dg)) = length (vertexStore dg)"
  "map resource (vertexStore (appendIncoming v e dg)) = map resource (vertexStore dg)"
  by (simp_all add: appendIncoming_def map_update_same)

lemma appendOutgoing_fields [simp]:
  "vertices (appendOutgoing v e dg) = vertices dg"
  "edgeStore (appendOutgoing v e dg) = edgeStore dg"
  "length (vertexStore (appendOutgoing v e dg)) = length (vertexStore dg)"
  "map resource (vertexStore (appendOutgoing v e dg)) = map resource (vertexStore dg)"
  by (simp_all add: appendOutgoing_def map_update_same)

lemma appendIncoming_nth:
  "u < length (vertexStore dg) \<Longrightarrow>
   incomingEdges (vertexStore (appendIncoming v e dg) ! u) =
     incomingEdges (vertexStore dg ! u) @ (if u = v then [e] else [])"
  "u < length (vertexStore dg) \<Longrightarrow>
   outgoingEdges (vertexStore (appendIncoming v e dg) ! u) = outgoingEdges (vertexStore dg ! u)"
  by (cases "u = v"; simp add: appendIncoming_def)+

lemma appendOutgoing_nth:
  "u < length (vertexStore dg) \<Longrightarrow>
   outgoingEdges (vertexStore (appendOutgoing v e dg) ! u) =
     outgoingEdges (vertexStore dg ! u) @ (if u = v then [e] else [])"
  "u < length (vertexStore dg) \<Longrightarrow>
   incomingEdges (vertexStore (appendOutgoing v e dg) ! u) = incomingEdges (vertexStore dg ! u)"
  by (cases "u = v"; simp add: appendOutgoing_def)+

lemma insOf_snoc:
  "insOf (es @ [x]) v =
     insOf es v @ (if isDependencyEdge x \<and> edge_to x = Some v then [length es] else [])"
proof -
  have "filter (\<lambda>e. isDependencyEdge ((es @ [x]) ! e) \<and> edge_to ((es @ [x]) ! e) = Some v)
          [0..<length es] =
        filter (\<lambda>e. isDependencyEdge (es ! e) \<and> edge_to (es ! e) = Some v) [0..<length es]"
    by (rule filter_cong) (simp_all add: nth_append)
  then show ?thesis by (simp add: insOf_def)
qed

lemma outsOf_snoc:
  "outsOf (es @ [x]) v = outsOf es v @ (if edge_from x = Some v then [length es] else [])"
proof -
  have "filter (\<lambda>e. edge_from ((es @ [x]) ! e) = Some v) [0..<length es] =
        filter (\<lambda>e. edge_from (es ! e) = Some v) [0..<length es]"
    by (rule filter_cong) (simp_all add: nth_append)
  then show ?thesis by (simp add: outsOf_def)
qed

lemma indexed_dependency_step:
  assumes "indexed dg"
  shows "indexed (appendOutgoing w (length (edgeStore dg))
           (appendIncoming v (length (edgeStore dg))
              (allocEdge (dependencyEdge (Some v) (Some w) ls c) dg)))"
  using assms unfolding indexed_def
  by (simp add: appendOutgoing_nth appendIncoming_nth insOf_snoc outsOf_snoc)

lemma indexed_parent_step:
  assumes "indexed dg"
  shows "indexed (appendOutgoing v (length (edgeStore dg))
           (allocEdge (parentEdge p (Some v) c) dg))"
  using assms unfolding indexed_def
  by (simp add: appendOutgoing_nth insOf_snoc outsOf_snoc)

lemma addDependencyEdges_frame:
  "addDependencyEdges opts blame v deps dg = Inr dg' \<Longrightarrow>
     vertices dg' = vertices dg \<and>
     map resource (vertexStore dg') = map resource (vertexStore dg)"
proof (induction deps arbitrary: dg)
  case Nil
  then show ?case by simp
next
  case (Cons d ds)
  then show ?case by (auto simp: Let_def split: option.splits)
qed

lemma addDependencyEdges_edges:
  "addDependencyEdges opts blame v deps dg = Inr dg' \<Longrightarrow>
     edgeStore dg' = edgeStore dg @
       map (\<lambda>d. dependencyEdge (Some v) (vertices dg d) (blame d) (dependencyEdgeColor opts)) deps"
proof (induction deps arbitrary: dg)
  case Nil
  then show ?case by simp
next
  case (Cons d ds)
  then show ?case by (auto simp: Let_def split: option.splits)
qed

lemma addDependencyEdges_indexed:
  "addDependencyEdges opts blame v deps dg = Inr dg' \<Longrightarrow> indexed dg \<Longrightarrow> indexed dg'"
proof (induction deps arbitrary: dg)
  case Nil
  then show ?case by simp
next
  case (Cons d ds)
  from Cons.prems(1) obtain w where w: "vertices dg d = Some w"
    by (auto simp: Let_def split: option.splits)
  let ?dg = "appendOutgoing w (length (edgeStore dg))
           (appendIncoming v (length (edgeStore dg))
              (allocEdge (dependencyEdge (Some v) (Some w) (blame d) (dependencyEdgeColor opts)) dg))"
  from Cons.prems(1) w have "addDependencyEdges opts blame v ds ?dg = Inr dg'"
    by (simp add: Let_def)
  moreover have "indexed ?dg" using Cons.prems(2) by (rule indexed_dependency_step)
  ultimately show ?case by (rule Cons.IH)
qed

lemma addDependencyEdges_panics:
  "(addDependencyEdges opts blame v deps dg = Inl p) \<longleftrightarrow> (\<exists>d\<in>set deps. vertices dg d = None)"
proof (induction deps arbitrary: dg)
  case Nil
  then show ?case by simp
next
  case (Cons d ds)
  then show ?case by (cases p) (auto simp: Let_def split: option.splits)
qed

lemma addParentEdge_frame:
  "vertices (addParentEdge opts v dg) = vertices dg"
  "map resource (vertexStore (addParentEdge opts v dg)) = map resource (vertexStore dg)"
  by (simp_all add: addParentEdge_def Let_def)

lemma addParentEdge_edges:
  "edgeStore (addParentEdge opts v dg) =
     edgeStore dg @ parentEdgesOf opts (vertices dg) v (resource (vertexStore dg ! v))"
  by (simp add: addParentEdge_def parentEdgesOf_def Let_def)

lemma addParentEdge_indexed: "indexed dg \<Longrightarrow> indexed (addParentEdge opts v dg)"
  by (simp add: addParentEdge_def Let_def indexed_parent_step)

lemma same_resource:
  "map resource xs = map resource ys \<Longrightarrow> v < length ys \<Longrightarrow> resource (xs ! v) = resource (ys ! v)"
  by (metis length_map nth_map)

lemma linkVertex_cases:
  assumes "linkVertex opts v dg = Inr dg'"
  obtains dg1 where
    "ignoreDependencyEdges opts \<and> dg1 = dg \<or>
     \<not> ignoreDependencyEdges opts \<and>
       addDependencyEdges opts
         (depBlame (PropertyDependencies (resource (vertexStore dg ! v))) (\<lambda>_. []))
         v (Dependencies (resource (vertexStore dg ! v))) dg = Inr dg1"
    "dg' = (if \<not> ignoreParentEdges opts then addParentEdge opts v dg1 else dg1)"
proof (cases "ignoreDependencyEdges opts")
  case True
  with assms have "dg' = (if \<not> ignoreParentEdges opts then addParentEdge opts v dg else dg)"
    by (simp add: linkVertex_def)
  with True that [of dg] show ?thesis by simp
next
  case False
  let ?add = "addDependencyEdges opts
         (depBlame (PropertyDependencies (resource (vertexStore dg ! v))) (\<lambda>_. []))
         v (Dependencies (resource (vertexStore dg ! v))) dg"
  from False assms have *: "(case ?add of Inl p \<Rightarrow> Inl p
      | Inr dg1 \<Rightarrow> Inr (if \<not> ignoreParentEdges opts then addParentEdge opts v dg1 else dg1))
      = Inr dg'"
    by (simp add: linkVertex_def)
  show ?thesis
  proof (cases ?add)
    case (Inl p)
    with * show ?thesis by simp
  next
    case (Inr dg1)
    with * have "dg' = (if \<not> ignoreParentEdges opts then addParentEdge opts v dg1 else dg1)"
      by simp
    with False Inr that [of dg1] show ?thesis by simp
  qed
qed

lemma linkVertex_frame:
  assumes "linkVertex opts v dg = Inr dg'"
  shows "vertices dg' = vertices dg \<and>
         map resource (vertexStore dg') = map resource (vertexStore dg)"
proof -
  from assms obtain dg1 where
    a: "ignoreDependencyEdges opts \<and> dg1 = dg \<or>
     \<not> ignoreDependencyEdges opts \<and>
       addDependencyEdges opts
         (depBlame (PropertyDependencies (resource (vertexStore dg ! v))) (\<lambda>_. []))
         v (Dependencies (resource (vertexStore dg ! v))) dg = Inr dg1"
    and b: "dg' = (if \<not> ignoreParentEdges opts then addParentEdge opts v dg1 else dg1)"
    by (rule linkVertex_cases)
  from a have "vertices dg1 = vertices dg \<and>
      map resource (vertexStore dg1) = map resource (vertexStore dg)"
    using addDependencyEdges_frame by blast
  with b show ?thesis by (simp add: addParentEdge_frame)
qed

lemma linkVertex_edges:
  assumes "linkVertex opts v dg = Inr dg'" and "v < length (vertexStore dg)"
  shows "edgeStore dg' = edgeStore dg @ edgesOf opts (vertices dg) v (resource (vertexStore dg ! v))"
proof (cases "ignoreDependencyEdges opts")
  case True
  with assms(1) show ?thesis
    by (auto simp: linkVertex_def edgesOf_def addParentEdge_edges)
next
  case False
  let ?r = "resource (vertexStore dg ! v)"
  from False assms(1) obtain dg1 where
    dg1: "addDependencyEdges opts (depBlame (PropertyDependencies ?r) (\<lambda>_. [])) v
            (Dependencies ?r) dg = Inr dg1"
    and dg': "dg' = (if \<not> ignoreParentEdges opts then addParentEdge opts v dg1 else dg1)"
    by (auto simp: linkVertex_def split: sum.splits)
  from addDependencyEdges_frame [OF dg1]
  have fr1: "vertices dg1 = vertices dg"
    and "map resource (vertexStore dg1) = map resource (vertexStore dg)" by simp_all
  from this(2) assms(2) have fr2: "resource (vertexStore dg1 ! v) = ?r" by (rule same_resource)
  note fr = fr1 fr2
  from addDependencyEdges_edges [OF dg1]
  have "edgeStore dg1 = edgeStore dg @ dependencyEdgesOf opts (vertices dg) v ?r"
    by (simp add: dependencyEdgesOf_def)
  with False dg' fr show ?thesis
    by (simp add: edgesOf_def addParentEdge_edges)
qed

lemma linkVertex_indexed:
  assumes "linkVertex opts v dg = Inr dg'" and "indexed dg"
  shows "indexed dg'"
proof -
  from assms(1) obtain dg1 where
    a: "ignoreDependencyEdges opts \<and> dg1 = dg \<or>
     \<not> ignoreDependencyEdges opts \<and>
       addDependencyEdges opts
         (depBlame (PropertyDependencies (resource (vertexStore dg ! v))) (\<lambda>_. []))
         v (Dependencies (resource (vertexStore dg ! v))) dg = Inr dg1"
    and b: "dg' = (if \<not> ignoreParentEdges opts then addParentEdge opts v dg1 else dg1)"
    by (rule linkVertex_cases)
  from a assms(2) have "indexed dg1" using addDependencyEdges_indexed by blast
  with b show ?thesis by (simp add: addParentEdge_indexed)
qed

lemma linkVertex_panics:
  "(linkVertex opts v dg = Inl p) \<longleftrightarrow>
     (\<not> ignoreDependencyEdges opts \<and>
      (\<exists>d\<in>set (Dependencies (resource (vertexStore dg ! v))). vertices dg d = None))"
proof -
  let ?add = "addDependencyEdges opts
      (depBlame (PropertyDependencies (resource (vertexStore dg ! v))) (\<lambda>_. []))
      v (Dependencies (resource (vertexStore dg ! v))) dg"
  have "(linkVertex opts v dg = Inl p) \<longleftrightarrow> (\<not> ignoreDependencyEdges opts \<and> ?add = Inl p)"
    by (simp add: linkVertex_def split: sum.splits)
  then show ?thesis by (simp only: addDependencyEdges_panics)
qed

text \<open>Every vertex pointer of the map refers to an object of the vertex store.\<close>

lemma linkVertices_frame:
  "linkVertices opts ks dg = Inr dg' \<Longrightarrow>
     vertices dg' = vertices dg \<and> map resource (vertexStore dg') = map resource (vertexStore dg)"
proof (induction ks arbitrary: dg)
  case Nil
  then show ?case by simp
next
  case (Cons k ks)
  then show ?case
    by (auto split: option.splits sum.splits dest!: linkVertex_frame) 
qed

lemma linkVertices_indexed:
  "linkVertices opts ks dg = Inr dg' \<Longrightarrow> indexed dg \<Longrightarrow> indexed dg'"
proof (induction ks arbitrary: dg)
  case Nil
  then show ?case by simp
next
  case (Cons k ks)
  then show ?case
    by (auto split: option.splits sum.splits dest: linkVertex_indexed)
qed

lemma linkVertices_edges:
  assumes "linkVertices opts ks dg = Inr dg'"
    and "\<forall>k v. vertices dg k = Some v \<longrightarrow> v < length (vertexStore dg)"
  shows "edgeStore dg' =
           edgeStore dg @ edgesOfKeys opts (vertices dg) (map resource (vertexStore dg)) ks"
  using assms
proof (induction ks arbitrary: dg)
  case Nil
  then show ?case by (simp add: edgesOfKeys_def)
next
  case (Cons k ks)
  show ?case
  proof (cases "vertices dg k")
    case None
    with Cons.prems have "linkVertices opts ks dg = Inr dg'" by simp
    from Cons.IH [OF this Cons.prems(2)] None show ?thesis by (simp add: edgesOfKeys_def)
  next
    case (Some v)
    with Cons.prems(2) have v: "v < length (vertexStore dg)" by blast
    from Some Cons.prems(1) obtain dg1 where
      dg1: "linkVertex opts v dg = Inr dg1" and rest: "linkVertices opts ks dg1 = Inr dg'"
      by (auto split: sum.splits)
    from linkVertex_frame [OF dg1]
    have fr: "vertices dg1 = vertices dg"
      "map resource (vertexStore dg1) = map resource (vertexStore dg)" by simp_all
    from fr(2) have len: "length (vertexStore dg1) = length (vertexStore dg)"
      by (metis length_map)
    from Cons.prems(2) fr(1) len
    have "\<forall>k v. vertices dg1 k = Some v \<longrightarrow> v < length (vertexStore dg1)" by simp
    from Cons.IH [OF rest this] fr linkVertex_edges [OF dg1 v] Some v
    show ?thesis by (simp add: edgesOfKeys_def)
  qed
qed

lemma linkVertices_panics:
  "(linkVertices opts ks dg = Inl p) \<longleftrightarrow>
     (\<not> ignoreDependencyEdges opts \<and>
      (\<exists>k\<in>set ks. \<exists>v. vertices dg k = Some v \<and> v < length (vertexStore dg) \<and>
         (\<exists>d\<in>set (Dependencies (map resource (vertexStore dg) ! v)). vertices dg d = None)))"
  if "\<forall>k v. vertices dg k = Some v \<longrightarrow> v < length (vertexStore dg)"
  using that
proof (induction ks arbitrary: dg)
  case Nil
  then show ?case by simp
next
  case (Cons k ks)
  show ?case
  proof (cases "vertices dg k")
    case None
    with Cons.IH [OF Cons.prems] show ?thesis by simp
  next
    case (Some v)
    with Cons.prems have v: "v < length (vertexStore dg)" by blast
    show ?thesis
    proof (cases "linkVertex opts v dg")
      case (Inl q)
      then have "\<not> ignoreDependencyEdges opts \<and>
        (\<exists>d\<in>set (Dependencies (resource (vertexStore dg ! v))). vertices dg d = None)"
        by (simp add: linkVertex_panics)
      with Inl Some v show ?thesis by (cases p; cases q) auto
    next
      case (Inr dg1)
      from linkVertex_frame [OF Inr]
      have fr: "vertices dg1 = vertices dg"
        "map resource (vertexStore dg1) = map resource (vertexStore dg)" by simp_all
      from fr(2) have len: "length (vertexStore dg1) = length (vertexStore dg)"
        by (metis length_map)
      from Cons.prems fr(1) len
      have "\<forall>k v. vertices dg1 k = Some v \<longrightarrow> v < length (vertexStore dg1)" by simp
      from Cons.IH [OF this] fr len
      have IH: "(linkVertices opts ks dg1 = Inl p) \<longleftrightarrow>
        (\<not> ignoreDependencyEdges opts \<and>
          (\<exists>k\<in>set ks. \<exists>v. vertices dg k = Some v \<and> v < length (vertexStore dg) \<and>
           (\<exists>d\<in>set (Dependencies (map resource (vertexStore dg) ! v)). vertices dg d = None)))"
        by simp
      have nop: "\<not> (\<not> ignoreDependencyEdges opts \<and>
        (\<exists>d\<in>set (Dependencies (resource (vertexStore dg ! v))). vertices dg d = None))"
        using Inr linkVertex_panics [of opts v dg NilPointerDereference] by simp
      have step: "(linkVertices opts (k # ks) dg = Inl p) \<longleftrightarrow> (linkVertices opts ks dg1 = Inl p)"
        using Some Inr by simp
      define bad where "bad = (\<lambda>k. \<exists>v. vertices dg k = Some v \<and> v < length (vertexStore dg) \<and>
           (\<exists>d\<in>set (Dependencies (map resource (vertexStore dg) ! v)). vertices dg d = None))"
      have nb: "\<not> bad k" if "\<not> ignoreDependencyEdges opts"
      proof
        assume "bad k"
        then obtain v' d where v': "vertices dg k = Some v'" "v' < length (vertexStore dg)"
          "d \<in> set (Dependencies (map resource (vertexStore dg) ! v'))" "vertices dg d = None"
          unfolding bad_def by blast
        from v'(1) Some have "v' = v" by simp
        with v'(2,3) have "d \<in> set (Dependencies (resource (vertexStore dg ! v)))" by simp
        with nop that v'(4) show False by blast
      qed
      have C: "(\<not> ignoreDependencyEdges opts \<and> (\<exists>k\<in>set (k # ks). bad k)) \<longleftrightarrow>
         (\<not> ignoreDependencyEdges opts \<and> (\<exists>k\<in>set ks. bad k))"
        using nb by (cases "ignoreDependencyEdges opts") simp_all
      have B: "(linkVertices opts ks dg1 = Inl p) \<longleftrightarrow>
         (\<not> ignoreDependencyEdges opts \<and> (\<exists>k\<in>set ks. bad k))"
        using IH unfolding bad_def .
      have "(linkVertices opts (k # ks) dg = Inl p) \<longleftrightarrow>
         (\<not> ignoreDependencyEdges opts \<and> (\<exists>k\<in>set (k # ks). bad k))"
        by (simp only: step B C)
      then show ?thesis unfolding bad_def .
    qed
  qed
qed

section \<open>The graph that \<^verbatim>\<open>makeDependencyGraph\<close> returns\<close>

lemma alloc_lookup:
  assumes "vertices (allocVertices opts s emptyGraph) k = Some v"
  shows "v < length s \<and> URN (s ! v) = k \<and> (\<forall>j. v < j \<and> j < length s \<longrightarrow> URN (s ! j) \<noteq> k)"
  using allocVertices_lookup [OF assms] by (auto simp: emptyGraph_def)

lemma alloc_dom: "dom (vertices (allocVertices opts s emptyGraph)) = set (map URN s)"
  by (simp add: allocVertices_dom emptyGraph_def)

lemma alloc_inj:
  assumes "vertices (allocVertices opts s emptyGraph) k = Some v"
    and "vertices (allocVertices opts s emptyGraph) k' = Some v"
  shows "k = k'"
  using alloc_lookup [OF assms(1)] alloc_lookup [OF assms(2)] by simp

lemma alloc_store: "map resource (vertexStore (allocVertices opts s emptyGraph)) = s"
  by (simp add: allocVertices_store emptyGraph_def newVertex_def comp_def)

lemma alloc_indexed: "indexed (allocVertices opts s emptyGraph)"
  by (simp add: indexed_def allocVertices_store allocVertices_edges emptyGraph_def
        newVertex_def insOf_def outsOf_def)

lemma alloc_distinct:
  assumes "distinct (map URN s)" and "i < length s"
  shows "vertices (allocVertices opts s emptyGraph) (URN (s ! i)) = Some i"
proof -
  from assms(2) have "URN (s ! i) \<in> dom (vertices (allocVertices opts s emptyGraph))"
    by (simp add: alloc_dom)
  then obtain v where v: "vertices (allocVertices opts s emptyGraph) (URN (s ! i)) = Some v"
    by blast
  from alloc_lookup [OF v] have "v < length s" "URN (s ! v) = URN (s ! i)" by simp_all
  with assms have "v = i" by (auto simp: distinct_conv_nth)
  with v show ?thesis by simp
qed

lemma make_built:
  assumes "makeDependencyGraph s opts ks = Inr g"
  shows "vertices g = vertices (allocVertices opts s emptyGraph)"
    and "map resource (vertexStore g) = s"
    and "indexed g"
    and "edgeStore g = edgesOfKeys opts (vertices (allocVertices opts s emptyGraph)) s ks"
proof -
  let ?g0 = "allocVertices opts s emptyGraph"
  from assms have run: "linkVertices opts ks ?g0 = Inr g" by (simp add: makeDependencyGraph_def)
  from linkVertices_frame [OF run] show "vertices g = vertices ?g0"
    and "map resource (vertexStore g) = s" by (simp_all add: alloc_store)
  from run alloc_indexed show "indexed g" by (rule linkVertices_indexed)
  have len: "length (vertexStore ?g0) = length s" by (metis alloc_store length_map)
  have "\<forall>k v. vertices ?g0 k = Some v \<longrightarrow> v < length (vertexStore ?g0)"
    using alloc_lookup len by metis
  from linkVertices_edges [OF run this]
  have "edgeStore g = edgeStore ?g0 @ edgesOfKeys opts (vertices ?g0) s ks"
    by (simp only: alloc_store)
  moreover have "edgeStore ?g0 = []" by (simp add: allocVertices_edges emptyGraph_def)
  ultimately show "edgeStore g = edgesOfKeys opts (vertices ?g0) s ks" by simp
qed

lemma make_panics:
  "(makeDependencyGraph s opts ks = Inl p) \<longleftrightarrow>
     (\<not> ignoreDependencyEdges opts \<and>
      (\<exists>k\<in>set ks. \<exists>v. vertices (allocVertices opts s emptyGraph) k = Some v \<and>
         (\<exists>d\<in>set (Dependencies (s ! v)). d \<notin> set (map URN s))))"
proof -
  let ?g0 = "allocVertices opts s emptyGraph"
  have len: "length (vertexStore ?g0) = length s" by (metis alloc_store length_map)
  have rng: "\<forall>k v. vertices ?g0 k = Some v \<longrightarrow> v < length (vertexStore ?g0)"
    using alloc_lookup len by metis
  have none: "vertices ?g0 d = None \<longleftrightarrow> d \<notin> set (map URN s)" for d
    using alloc_dom [of opts s] by (metis domIff)
  have "(makeDependencyGraph s opts ks = Inl p) \<longleftrightarrow> (linkVertices opts ks ?g0 = Inl p)"
    by (simp add: makeDependencyGraph_def)
  also have "\<dots> \<longleftrightarrow> (\<not> ignoreDependencyEdges opts \<and>
      (\<exists>k\<in>set ks. \<exists>v. vertices ?g0 k = Some v \<and> v < length (vertexStore ?g0) \<and>
         (\<exists>d\<in>set (Dependencies (map resource (vertexStore ?g0) ! v)). vertices ?g0 d = None)))"
    by (rule linkVertices_panics [OF rng])
  also have "\<dots> \<longleftrightarrow> (\<not> ignoreDependencyEdges opts \<and>
      (\<exists>k\<in>set ks. \<exists>v. vertices ?g0 k = Some v \<and>
         (\<exists>d\<in>set (Dependencies (s ! v)). d \<notin> set (map URN s))))"
    unfolding alloc_store none using rng by blast
  finally show ?thesis .
qed

section \<open>The graph of the concrete stack\<close>

lemma example_built:
  "makeDependencyGraph exampleSnapshot exampleOptions [''A'', ''B'', ''C''] = Inr exampleGraph"
  by (simp add: makeDependencyGraph_def exampleSnapshot_def exampleOptions_def exampleGraph_def
        resourceA_def resourceB_def resourceC_def emptyGraph_def newVertex_def linkVertex_def
        addParentEdge_def allocEdge_def appendIncoming_def appendOutgoing_def Let_def
        numeral_2_eq_2)


section \<open>The command on a stack without a snapshot\<close>

text \<open>
  C8. When \<^verbatim>\<open>RequireStack\<close> and \<^verbatim>\<open>s.Snapshot\<close> succeed and the snapshot is nil, the command
  returns the error of line 95, which carries the stack name, and has performed no action
  at all: the graph is not built, no file is created and nothing is printed.
\<close>

theorem missing_snapshot_short_circuits:
  assumes "requireStackErr env = None" and "snapshotResult env = Inr None"
  shows "runGraphCmd cmdOpts filename env = ([], Failure (SnapshotNotFound (stackName cmdOpts)))"
  using assms by (simp add: runGraphCmd_def)

theorem missing_snapshot_short_circuits_witness:
  "requireStackErr \<lparr>requireStackErr = None, snapshotResult = Inr None, createErr = None,
      printErr = None, closeErr = None, mapOrder = []\<rparr> = None \<and>
   snapshotResult \<lparr>requireStackErr = None, snapshotResult = Inr None, createErr = None,
      printErr = None, closeErr = None, mapOrder = []\<rparr> = Inr None \<and>
   runGraphCmd exampleOptions ''graph.dot''
     \<lparr>requireStackErr = None, snapshotResult = Inr None, createErr = None,
      printErr = None, closeErr = None, mapOrder = []\<rparr> =
     ([], Failure (SnapshotNotFound ''dev''))"
  using missing_snapshot_short_circuits
    [of "\<lparr>requireStackErr = None, snapshotResult = Inr None, createErr = None,
      printErr = None, closeErr = None, mapOrder = []\<rparr>" exampleOptions "''graph.dot''"]
  by (simp add: exampleOptions_def)

section \<open>Root edges, ignored edge kinds and duplicate identifiers\<close>

lemma Roots_members:
  "e \<in> set (Roots dg ks) \<Longrightarrow>
     \<exists>k\<in>set ks. \<exists>v. vertices dg k = Some v \<and> e = dependencyEdge (Some v) None [] []"
  by (induction ks) (auto split: option.splits)

lemma Roots_length: "set ks \<subseteq> dom (vertices dg) \<Longrightarrow> length (Roots dg ks) = length ks"
  by (induction ks) auto

lemma Roots_to: "set ks \<subseteq> dom (vertices dg) \<Longrightarrow> map To (Roots dg ks) = map (vertices dg) ks"
  by (induction ks) auto

lemma Roots_none:
  assumes "\<forall>k\<in>set ks. vertices dg k \<noteq> Some v"
  shows "filter (\<lambda>e. To e = Some v) (Roots dg ks) = []"
  using assms by (induction ks) (auto split: option.splits)

lemma Roots_once:
  assumes "distinct ks" and "k \<in> set ks" and "vertices dg k = Some v"
    and "\<forall>k'. vertices dg k' = Some v \<longrightarrow> k' = k"
  shows "length (filter (\<lambda>e. To e = Some v) (Roots dg ks)) = 1"
  using assms(1,2)
proof (induction ks)
  case Nil
  then show ?case by simp
next
  case (Cons a ks)
  show ?case
  proof (cases "a = k")
    case True
    with Cons.prems have "k \<notin> set ks" by simp
    with assms(4) have "\<forall>k'\<in>set ks. vertices dg k' \<noteq> Some v" by blast
    then have "filter (\<lambda>e. To e = Some v) (Roots dg ks) = []" by (rule Roots_none)
    with True assms(3) show ?thesis by simp
  next
    case False
    with Cons.prems have "distinct ks" "k \<in> set ks" by simp_all
    then have IH: "length (filter (\<lambda>e. To e = Some v) (Roots dg ks)) = 1" by (rule Cons.IH)
    from False assms(4) have "vertices dg a \<noteq> Some v" by blast
    with IH show ?thesis by (cases "vertices dg a") simp_all
  qed
qed

lemma make_total:
  "makeDependencyGraph s opts ks = Inl NilPointerDereference \<or>
   (\<exists>g. makeDependencyGraph s opts ks = Inr g)"
proof (cases "makeDependencyGraph s opts ks")
  case (Inl p)
  then show ?thesis by (cases p) simp
next
  case (Inr g)
  then show ?thesis by simp
qed

lemma edgesOfKeys_member:
  "e \<in> set (edgesOfKeys opts m s ks) \<longleftrightarrow>
     (\<exists>k\<in>set ks. \<exists>v. m k = Some v \<and> e \<in> set (edgesOf opts m v (s ! v)))"
  by (induction ks) (auto simp: edgesOfKeys_def split: option.splits)

lemma edgesOf_member:
  "e \<in> set (edgesOf opts m v r) \<longleftrightarrow>
     (\<not> ignoreDependencyEdges opts \<and> e \<in> set (dependencyEdgesOf opts m v r)) \<or>
     (\<not> ignoreParentEdges opts \<and> e \<in> set (parentEdgesOf opts m v r))"
  by (simp add: edgesOf_def)

lemma dependencyEdgesOf_member:
  "e \<in> set (dependencyEdgesOf opts m v r) \<longleftrightarrow>
     (\<exists>d\<in>set (Dependencies r).
        e = dependencyEdge (Some v) (m d) (depBlame (PropertyDependencies r) (\<lambda>_. []) d)
              (dependencyEdgeColor opts))"
  by (auto simp: dependencyEdgesOf_def)

lemma parentEdgesOf_member:
  "e \<in> set (parentEdgesOf opts m v r) \<longleftrightarrow>
     (Parent r \<noteq> [] \<and> e = parentEdge (m (Parent r)) (Some v) (parentEdgeColor opts))"
  by (auto simp: parentEdgesOf_def)

lemma vertex_lists:
  assumes "indexed g" and "x \<in> set (vertexStore g)"
  shows "\<exists>v<length (vertexStore g). x = vertexStore g ! v \<and>
           incomingEdges x = insOf (edgeStore g) v \<and> outgoingEdges x = outsOf (edgeStore g) v"
  using assms by (auto simp: indexed_def in_set_conv_nth)

text \<open>
  C1. For a graph that \<^verbatim>\<open>makeDependencyGraph\<close> returned and any order in which \<^verbatim>\<open>Roots\<close>
  visits the map of vertices, \<^verbatim>\<open>Roots\<close> returns as many edges as the map has vertices, the
  edges point to the vertices in the order visited, every edge is a \<^verbatim>\<open>dependencyEdge\<close>
  whose \<^verbatim>\<open>from\<close> is nil, and every vertex is the \<^verbatim>\<open>to\<close> of exactly one of them. Nothing is
  assumed about the incoming edges of the vertices.
\<close>

theorem roots_one_edge_per_vertex:
  assumes "makeDependencyGraph snapshot opts order = Inr dg"
    and "rangeOrder (vertices dg) ks"
  shows "length (Roots dg ks) = card (dom (vertices dg)) \<and>
         map To (Roots dg ks) = map (vertices dg) ks \<and>
         (\<forall>e\<in>set (Roots dg ks). isDependencyEdge e \<and> From e = None) \<and>
         (\<forall>v\<in>ran (vertices dg). length (filter (\<lambda>e. To e = Some v) (Roots dg ks)) = 1)"
proof -
  from assms(2) have ks: "distinct ks" "set ks = dom (vertices dg)"
    by (simp_all add: rangeOrder_def)
  have "length (Roots dg ks) = length ks" using ks(2) by (simp add: Roots_length)
  also have "\<dots> = card (dom (vertices dg))" using ks by (metis distinct_card)
  finally have a: "length (Roots dg ks) = card (dom (vertices dg))" .
  have b: "map To (Roots dg ks) = map (vertices dg) ks" using ks(2) by (simp add: Roots_to)
  have c: "\<forall>e\<in>set (Roots dg ks). isDependencyEdge e \<and> From e = None"
  proof
    fix e assume "e \<in> set (Roots dg ks)"
    from Roots_members [OF this] obtain v where "e = dependencyEdge (Some v) None [] []"
      by blast
    then show "isDependencyEdge e \<and> From e = None" by simp
  qed
  have vs: "vertices dg = vertices (allocVertices opts snapshot emptyGraph)"
    using assms(1) by (rule make_built(1))
  have d: "\<forall>v\<in>ran (vertices dg). length (filter (\<lambda>e. To e = Some v) (Roots dg ks)) = 1"
  proof
    fix v assume "v \<in> ran (vertices dg)"
    then obtain k where k: "vertices dg k = Some v" by (auto simp: ran_def)
    then have mem: "k \<in> set ks" using ks(2) by blast
    have uniq: "\<forall>k'. vertices dg k' = Some v \<longrightarrow> k' = k"
      using k alloc_inj [of opts snapshot] unfolding vs by blast
    show "length (filter (\<lambda>e. To e = Some v) (Roots dg ks)) = 1"
      by (rule Roots_once [OF ks(1) mem k uniq])
  qed
  from a b c d show ?thesis by blast
qed

theorem roots_one_edge_per_vertex_witness:
  "makeDependencyGraph exampleSnapshot exampleOptions [''A'', ''B'', ''C''] = Inr exampleGraph \<and>
   rangeOrder (vertices exampleGraph) [''C'', ''A'', ''B''] \<and>
   incomingEdges (vertexStore exampleGraph ! 1) = [0] \<and>
   Roots exampleGraph [''C'', ''A'', ''B''] =
     [dependencyEdge (Some 2) None [] [], dependencyEdge (Some 0) None [] [],
      dependencyEdge (Some 1) None [] []] \<and>
   length (Roots exampleGraph [''C'', ''A'', ''B'']) = card (dom (vertices exampleGraph)) \<and>
   length (filter (\<lambda>e. To e = Some 1) (Roots exampleGraph [''C'', ''A'', ''B''])) = 1"
proof -
  have r: "rangeOrder (vertices exampleGraph) [''C'', ''A'', ''B'']"
    by (auto simp: rangeOrder_def exampleGraph_def)
  have roots: "Roots exampleGraph [''C'', ''A'', ''B''] =
     [dependencyEdge (Some 2) None [] [], dependencyEdge (Some 0) None [] [],
      dependencyEdge (Some 1) None [] []]"
    by (simp add: exampleGraph_def)
  have ins: "incomingEdges (vertexStore exampleGraph ! 1) = [0]"
    by (simp add: exampleGraph_def)
  note t = roots_one_edge_per_vertex [OF example_built r]
  from t have t1: "length (Roots exampleGraph [''C'', ''A'', ''B'']) =
      card (dom (vertices exampleGraph))" by (rule conjunct1)
  have "vertices exampleGraph ''B'' = Some 1" by (simp add: exampleGraph_def)
  then have "1 \<in> ran (vertices exampleGraph)" by (rule ranI)
  with t have t4:
    "length (filter (\<lambda>e. To e = Some 1) (Roots exampleGraph [''C'', ''A'', ''B''])) = 1"
    by blast
  from example_built r ins roots t1 t4 show ?thesis by (intro conjI)
qed

text \<open>
  C9. Every edge that \<^verbatim>\<open>Roots\<close> returns has the empty label and the empty color, whatever
  the graph and the order; in a graph that \<^verbatim>\<open>makeDependencyGraph\<close> returned, every
  \<^verbatim>\<open>dependencyEdge\<close> object has the color of the option \<^verbatim>\<open>dependencyEdgeColor\<close>.
\<close>

theorem root_edges_without_label_and_color:
  "(\<forall>e\<in>set (Roots dg ks). Label e = [] \<and> Color e = []) \<and>
   (\<forall>g. makeDependencyGraph snapshot opts order = Inr g \<longrightarrow>
      (\<forall>e\<in>set (edgeStore g). isDependencyEdge e \<longrightarrow> Color e = dependencyEdgeColor opts))"
proof (intro conjI ballI allI impI)
  fix e assume "e \<in> set (Roots dg ks)"
  from Roots_members [OF this] obtain v where e: "e = dependencyEdge (Some v) None [] []"
    by blast
  show "Label e = []" by (simp add: e)
  show "Color e = []" by (simp add: e)
next
  fix g e
  assume g: "makeDependencyGraph snapshot opts order = Inr g"
    and e: "e \<in> set (edgeStore g)" "isDependencyEdge e"
  let ?m = "vertices (allocVertices opts snapshot emptyGraph)"
  from e(1) have "e \<in> set (edgesOfKeys opts ?m snapshot order)"
    by (simp only: make_built(4) [OF g])
  then obtain v where "e \<in> set (edgesOf opts ?m v (snapshot ! v))"
    unfolding edgesOfKeys_member by blast
  with e(2) have "e \<in> set (dependencyEdgesOf opts ?m v (snapshot ! v))"
    unfolding edgesOf_member parentEdgesOf_member by auto
  then show "Color e = dependencyEdgeColor opts"
    unfolding dependencyEdgesOf_member by auto
qed

theorem root_edges_without_label_and_color_witness:
  "dependencyEdge (Some 1) None [] [] \<in> set (Roots exampleGraph [''C'', ''A'', ''B'']) \<and>
   Label (dependencyEdge (Some 1) None [] []) = [] \<and>
   Color (dependencyEdge (Some 1) None [] []) = [] \<and>
   makeDependencyGraph exampleSnapshot exampleOptions [''A'', ''B'', ''C''] = Inr exampleGraph \<and>
   dependencyEdge (Some 1) (Some 0) [''input''] ''#246C60'' \<in> set (edgeStore exampleGraph) \<and>
   isDependencyEdge (dependencyEdge (Some 1) (Some 0) [''input''] ''#246C60'') \<and>
   Label (dependencyEdge (Some 1) (Some 0) [''input''] ''#246C60'') = ''input'' \<and>
   Color (dependencyEdge (Some 1) (Some 0) [''input''] ''#246C60'') =
     dependencyEdgeColor exampleOptions"
proof -
  note t = root_edges_without_label_and_color
    [of exampleGraph "[''C'', ''A'', ''B'']" exampleSnapshot exampleOptions "[''A'', ''B'', ''C'']"]
  have m1: "dependencyEdge (Some 1) None [] [] \<in> set (Roots exampleGraph [''C'', ''A'', ''B''])"
    by (simp add: exampleGraph_def)
  have m2: "dependencyEdge (Some 1) (Some 0) [''input''] ''#246C60'' \<in> set (edgeStore exampleGraph)"
    by (simp add: exampleGraph_def)
  from t m1 have l: "Label (dependencyEdge (Some 1) None [] []) = []"
    and c: "Color (dependencyEdge (Some 1) None [] []) = []" by blast+
  from t example_built m2
  have c2: "Color (dependencyEdge (Some 1) (Some 0) [''input''] ''#246C60'') =
     dependencyEdgeColor exampleOptions" by (metis edge.disc(1))
  have i: "isDependencyEdge (dependencyEdge (Some 1) (Some 0) [''input''] ''#246C60'')" by simp
  have l2: "Label (dependencyEdge (Some 1) (Some 0) [''input''] ''#246C60'') = ''input''" by simp
  from m1 l c example_built m2 i l2 c2 show ?thesis by (intro conjI)
qed

lemma edge_kind: "isParentEdge e \<longleftrightarrow> \<not> isDependencyEdge e"
  by (cases e) simp_all

lemma insOf_no_dependency:
  assumes "\<forall>e\<in>set es. \<not> isDependencyEdge e"
  shows "insOf es v = []"
  using assms by (auto simp: insOf_def filter_empty_conv)

lemma outsOf_bound: "e \<in> set (outsOf es v) \<Longrightarrow> e < length es \<and> edge_from (es ! e) = Some v"
  by (auto simp: outsOf_def)

lemma insOf_bound:
  "e \<in> set (insOf es v) \<Longrightarrow>
     e < length es \<and> isDependencyEdge (es ! e) \<and> edge_to (es ! e) = Some v"
  by (auto simp: insOf_def)

lemma edgesOfKeys_kinds:
  assumes "e \<in> set (edgesOfKeys opts m s ks)"
  shows "(ignoreDependencyEdges opts \<longrightarrow> isParentEdge e) \<and>
         (ignoreParentEdges opts \<longrightarrow> isDependencyEdge e)"
proof -
  from assms obtain v where "e \<in> set (edgesOf opts m v (s ! v))"
    unfolding edgesOfKeys_member by blast
  then show ?thesis
    unfolding edgesOf_member parentEdgesOf_member dependencyEdgesOf_member by auto
qed

text \<open>
  C5. With \<^verbatim>\<open>ignoreDependencyEdges\<close> set the builder always returns a graph, and that graph
  has no \<^verbatim>\<open>dependencyEdge\<close> object: every incoming list is empty and every outgoing list
  refers to parent edges only. With \<^verbatim>\<open>ignoreParentEdges\<close> set every graph that the builder
  returns has no \<^verbatim>\<open>parentEdge\<close> object: every outgoing list refers to dependency edges
  only. Nothing is assumed about the dependency lists and the parent fields.
\<close>

theorem ignored_edge_kinds_are_absent:
  "(ignoreDependencyEdges opts \<longrightarrow>
      (\<exists>g. makeDependencyGraph snapshot opts order = Inr g \<and>
         (\<forall>e\<in>set (edgeStore g). \<not> isDependencyEdge e) \<and>
         (\<forall>x\<in>set (vertexStore g). incomingEdges x = [] \<and>
            (\<forall>e\<in>set (outgoingEdges x). e < length (edgeStore g) \<and>
               isParentEdge (edgeStore g ! e))))) \<and>
   (ignoreParentEdges opts \<longrightarrow>
      (\<forall>g. makeDependencyGraph snapshot opts order = Inr g \<longrightarrow>
         (\<forall>e\<in>set (edgeStore g). \<not> isParentEdge e) \<and>
         (\<forall>x\<in>set (vertexStore g). \<forall>e\<in>set (outgoingEdges x). e < length (edgeStore g) \<and>
               isDependencyEdge (edgeStore g ! e))))"
proof (intro conjI impI allI)
  assume ign: "ignoreDependencyEdges opts"
  then have "makeDependencyGraph snapshot opts order \<noteq> Inl NilPointerDereference"
    by (simp add: make_panics)
  with make_total [of snapshot opts order] obtain g where
    g: "makeDependencyGraph snapshot opts order = Inr g" by blast
  let ?m = "vertices (allocVertices opts snapshot emptyGraph)"
  have kinds: "\<forall>e\<in>set (edgeStore g). isParentEdge e"
    using edgesOfKeys_kinds [of _ opts ?m snapshot order] ign
    by (simp add: make_built(4) [OF g])
  then have nodep: "\<forall>e\<in>set (edgeStore g). \<not> isDependencyEdge e"
    by (simp add: edge_kind)
  have lists: "\<forall>x\<in>set (vertexStore g). incomingEdges x = [] \<and>
            (\<forall>e\<in>set (outgoingEdges x). e < length (edgeStore g) \<and>
               isParentEdge (edgeStore g ! e))"
  proof
    fix x assume "x \<in> set (vertexStore g)"
    from vertex_lists [OF make_built(3) [OF g] this] obtain v where
      v: "incomingEdges x = insOf (edgeStore g) v" "outgoingEdges x = outsOf (edgeStore g) v"
      by blast
    from v(1) nodep have "incomingEdges x = []" by (simp add: insOf_no_dependency)
    moreover have "\<forall>e\<in>set (outgoingEdges x). e < length (edgeStore g) \<and>
               isParentEdge (edgeStore g ! e)"
      using v(2) outsOf_bound [of _ "edgeStore g" v] kinds by (metis nth_mem)
    ultimately show "incomingEdges x = [] \<and>
            (\<forall>e\<in>set (outgoingEdges x). e < length (edgeStore g) \<and>
               isParentEdge (edgeStore g ! e))" by blast
  qed
  from g nodep lists
  show "\<exists>g. makeDependencyGraph snapshot opts order = Inr g \<and>
         (\<forall>e\<in>set (edgeStore g). \<not> isDependencyEdge e) \<and>
         (\<forall>x\<in>set (vertexStore g). incomingEdges x = [] \<and>
            (\<forall>e\<in>set (outgoingEdges x). e < length (edgeStore g) \<and>
               isParentEdge (edgeStore g ! e)))" by blast
next
  fix g
  assume ign: "ignoreParentEdges opts"
    and g: "makeDependencyGraph snapshot opts order = Inr g"
  let ?m = "vertices (allocVertices opts snapshot emptyGraph)"
  have kinds: "\<forall>e\<in>set (edgeStore g). isDependencyEdge e"
    using edgesOfKeys_kinds [of _ opts ?m snapshot order] ign
    by (simp add: make_built(4) [OF g])
  then show "\<forall>e\<in>set (edgeStore g). \<not> isParentEdge e"
    by (simp add: edge_kind)
  show "\<forall>x\<in>set (vertexStore g). \<forall>e\<in>set (outgoingEdges x). e < length (edgeStore g) \<and>
               isDependencyEdge (edgeStore g ! e)"
  proof
    fix x assume "x \<in> set (vertexStore g)"
    from vertex_lists [OF make_built(3) [OF g] this] obtain v where
      v: "outgoingEdges x = outsOf (edgeStore g) v" by blast
    show "\<forall>e\<in>set (outgoingEdges x). e < length (edgeStore g) \<and>
               isDependencyEdge (edgeStore g ! e)"
      using v outsOf_bound [of _ "edgeStore g" v] kinds by (metis nth_mem)
  qed
qed


lemmas build_defs =
  makeDependencyGraph_def emptyGraph_def newVertex_def linkVertex_def addParentEdge_def
  allocEdge_def appendIncoming_def appendOutgoing_def Let_def

lemmas example_defs =
  exampleSnapshot_def exampleOptions_def resourceA_def resourceB_def resourceC_def

theorem ignored_edge_kinds_are_absent_witness:
  "ignoreDependencyEdges (exampleOptions\<lparr>ignoreDependencyEdges := True\<rparr>) \<and>
   (\<exists>g. makeDependencyGraph exampleSnapshot (exampleOptions\<lparr>ignoreDependencyEdges := True\<rparr>)
          [''B'', ''C'', ''A''] = Inr g \<and>
        edgeStore g = [parentEdge (Some 1) (Some 2) ''#AA6639''] \<and>
        list_all (\<lambda>e. \<not> isDependencyEdge e) (edgeStore g) \<and>
        list_all (\<lambda>x. incomingEdges x = []) (vertexStore g)) \<and>
   ignoreParentEdges (exampleOptions\<lparr>ignoreParentEdges := True\<rparr>) \<and>
   (\<exists>g. makeDependencyGraph exampleSnapshot (exampleOptions\<lparr>ignoreParentEdges := True\<rparr>)
          [''B'', ''C'', ''A''] = Inr g \<and>
        edgeStore g = [dependencyEdge (Some 1) (Some 0) [''input''] ''#246C60''] \<and>
        list_all (\<lambda>e. \<not> isParentEdge e) (edgeStore g))"
proof -
  let ?o1 = "exampleOptions\<lparr>ignoreDependencyEdges := True\<rparr>"
  let ?o2 = "exampleOptions\<lparr>ignoreParentEdges := True\<rparr>"
  let ?ks = "[''B'', ''C'', ''A'']"
  have h1: "ignoreDependencyEdges ?o1" by simp
  have h2: "ignoreParentEdges ?o2" by simp
  from ignored_edge_kinds_are_absent [of ?o1 exampleSnapshot ?ks] h1
  obtain g1 where g1: "makeDependencyGraph exampleSnapshot ?o1 ?ks = Inr g1"
    and b1: "\<forall>e\<in>set (edgeStore g1). \<not> isDependencyEdge e"
    and b2: "\<forall>x\<in>set (vertexStore g1). incomingEdges x = []"
    by blast
  from b1 have l1: "list_all (\<lambda>e. \<not> isDependencyEdge e) (edgeStore g1)"
    by (simp only: list_all_iff)
  from b2 have l2: "list_all (\<lambda>x. incomingEdges x = []) (vertexStore g1)"
    by (simp only: list_all_iff)
  have "\<exists>g. makeDependencyGraph exampleSnapshot ?o1 ?ks = Inr g \<and>
      edgeStore g = [parentEdge (Some 1) (Some 2) ''#AA6639'']"
    by (simp add: build_defs example_defs)
  with g1 have e1: "edgeStore g1 = [parentEdge (Some 1) (Some 2) ''#AA6639'']" by auto
  have "\<exists>g. makeDependencyGraph exampleSnapshot ?o2 ?ks = Inr g \<and>
      edgeStore g = [dependencyEdge (Some 1) (Some 0) [''input''] ''#246C60'']"
    by (simp add: build_defs example_defs)
  then obtain g2 where g2: "makeDependencyGraph exampleSnapshot ?o2 ?ks = Inr g2"
    and e2: "edgeStore g2 = [dependencyEdge (Some 1) (Some 0) [''input''] ''#246C60'']" by blast
  from ignored_edge_kinds_are_absent [of ?o2 exampleSnapshot ?ks] h2 g2
  have "\<forall>e\<in>set (edgeStore g2). \<not> isParentEdge e" by blast
  then have p2: "list_all (\<lambda>e. \<not> isParentEdge e) (edgeStore g2)"
    by (simp only: list_all_iff)
  from g1 e1 l1 l2 have part1: "\<exists>g. makeDependencyGraph exampleSnapshot ?o1 ?ks = Inr g \<and>
        edgeStore g = [parentEdge (Some 1) (Some 2) ''#AA6639''] \<and>
        list_all (\<lambda>e. \<not> isDependencyEdge e) (edgeStore g) \<and>
        list_all (\<lambda>x. incomingEdges x = []) (vertexStore g)"
    by (intro exI [of _ g1] conjI)
  from g2 e2 p2 have part2: "\<exists>g. makeDependencyGraph exampleSnapshot ?o2 ?ks = Inr g \<and>
        edgeStore g = [dependencyEdge (Some 1) (Some 0) [''input''] ''#246C60''] \<and>
        list_all (\<lambda>e. \<not> isParentEdge e) (edgeStore g)"
    by (intro exI [of _ g2] conjI)
  from h1 part1 h2 part2 show ?thesis by (intro conjI)
qed

lemma edgesOfKeys_no_references:
  assumes "\<forall>r\<in>set s. Dependencies r = [] \<and> Parent r = []"
    and "\<forall>k v. m k = Some v \<longrightarrow> v < length s"
  shows "edgesOfKeys opts m s ks = []"
proof -
  have "edgesOf opts m v (s ! v) = []" if "v < length s" for v
    using assms(1) that by (simp add: edgesOf_def dependencyEdgesOf_def parentEdgesOf_def)
  with assms(2) show ?thesis
    by (auto simp: edgesOfKeys_def split: option.splits)
qed

text \<open>
  C6. For a snapshot whose records have distinct URNs, no dependencies, no property
  dependencies and no parent, the builder returns a graph with as many vertices as the
  snapshot has records and with no edge object at all, so with no dependency edge and no
  parent edge; all edge lists are empty, and \<^verbatim>\<open>Roots\<close> returns as many edges as there are
  records.
\<close>

theorem graph_without_references:
  assumes "distinct (map URN snapshot)"
    and "\<forall>r\<in>set snapshot. Dependencies r = [] \<and> PropertyDependencies r = [] \<and> Parent r = []"
  shows "\<exists>g. makeDependencyGraph snapshot opts order = Inr g \<and>
           card (dom (vertices g)) = length snapshot \<and>
           card (ran (vertices g)) = length snapshot \<and>
           length (vertexStore g) = length snapshot \<and>
           edgeStore g = [] \<and>
           (\<forall>x\<in>set (vertexStore g). incomingEdges x = [] \<and> outgoingEdges x = []) \<and>
           (\<forall>ks. rangeOrder (vertices g) ks \<longrightarrow> length (Roots g ks) = length snapshot)"
proof -
  let ?g0 = "allocVertices opts snapshot emptyGraph"
  from assms(2) have "makeDependencyGraph snapshot opts order \<noteq> Inl NilPointerDereference"
    by (auto simp: make_panics dest: alloc_lookup)
  with make_total [of snapshot opts order] obtain g where
    g: "makeDependencyGraph snapshot opts order = Inr g" by blast
  note built = make_built [OF g]
  have dom: "dom (vertices g) = set (map URN snapshot)" by (simp add: built(1) alloc_dom)
  with assms(1) have a: "card (dom (vertices g)) = length snapshot"
    by (metis distinct_card length_map)
  have "ran (vertices g) = {..<length snapshot}"
  proof (intro set_eqI iffI)
    fix v assume "v \<in> ran (vertices g)"
    then obtain k where "vertices ?g0 k = Some v" by (auto simp: ran_def built(1))
    from alloc_lookup [OF this] show "v \<in> {..<length snapshot}" by simp
  next
    fix v assume "v \<in> {..<length snapshot}"
    then have "vertices ?g0 (URN (snapshot ! v)) = Some v"
      using assms(1) by (simp add: alloc_distinct)
    then show "v \<in> ran (vertices g)" unfolding built(1) by (rule ranI)
  qed
  then have a': "card (ran (vertices g)) = length snapshot" by simp
  have b: "length (vertexStore g) = length snapshot" by (metis built(2) length_map)
  have c: "edgeStore g = []"
    unfolding built(4) using assms(2) alloc_lookup [of opts snapshot]
    by (intro edgesOfKeys_no_references) blast+
  have d: "\<forall>x\<in>set (vertexStore g). incomingEdges x = [] \<and> outgoingEdges x = []"
  proof
    fix x assume "x \<in> set (vertexStore g)"
    from vertex_lists [OF built(3) this] c
    show "incomingEdges x = [] \<and> outgoingEdges x = []"
      by (auto simp: insOf_def outsOf_def)
  qed
  have e: "\<forall>ks. rangeOrder (vertices g) ks \<longrightarrow> length (Roots g ks) = length snapshot"
  proof (intro allI impI)
    fix ks assume "rangeOrder (vertices g) ks"
    then have ks: "distinct ks" "set ks = dom (vertices g)" by (simp_all add: rangeOrder_def)
    then have "length (Roots g ks) = length ks" by (simp add: Roots_length)
    also have "\<dots> = card (dom (vertices g))" using ks by (metis distinct_card)
    finally show "length (Roots g ks) = length snapshot" using a by simp
  qed
  from g a a' b c d e show ?thesis by blast
qed


theorem graph_without_references_witness:
  "distinct (map URN [resourceA, resourceA\<lparr>URN := ''D''\<rparr>]) \<and>
   list_all (\<lambda>r. Dependencies r = [] \<and> PropertyDependencies r = [] \<and> Parent r = [])
     [resourceA, resourceA\<lparr>URN := ''D''\<rparr>] \<and>
   (\<exists>g. makeDependencyGraph [resourceA, resourceA\<lparr>URN := ''D''\<rparr>] exampleOptions
          [''D'', ''A''] = Inr g \<and>
        card (dom (vertices g)) = 2 \<and> length (vertexStore g) = 2 \<and> edgeStore g = [] \<and>
        rangeOrder (vertices g) [''A'', ''D''] \<and> length (Roots g [''A'', ''D'']) = 2)"
proof -
  let ?s = "[resourceA, resourceA\<lparr>URN := ''D''\<rparr>]"
  have h1: "distinct (map URN ?s)" by (simp add: resourceA_def)
  have h2: "\<forall>r\<in>set ?s. Dependencies r = [] \<and> PropertyDependencies r = [] \<and> Parent r = []"
    by (simp add: resourceA_def)
  then have h2': "list_all (\<lambda>r. Dependencies r = [] \<and> PropertyDependencies r = [] \<and>
      Parent r = []) ?s" by (simp only: list_all_iff)
  from graph_without_references [OF h1 h2, of exampleOptions "[''D'', ''A'']"]
  obtain g where g: "makeDependencyGraph ?s exampleOptions [''D'', ''A''] = Inr g"
    and g2: "card (dom (vertices g)) = length ?s" and g3: "length (vertexStore g) = length ?s"
    and g4: "edgeStore g = []"
    and g5: "\<forall>ks. rangeOrder (vertices g) ks \<longrightarrow> length (Roots g ks) = length ?s"
    by blast
  have "\<exists>g. makeDependencyGraph ?s exampleOptions [''D'', ''A''] = Inr g \<and>
      vertices g = [''A'' \<mapsto> 0, ''D'' \<mapsto> 1]"
    by (simp add: build_defs example_defs)
  with g have "vertices g = [''A'' \<mapsto> 0, ''D'' \<mapsto> 1]" by auto
  then have r: "rangeOrder (vertices g) [''A'', ''D'']" by (auto simp: rangeOrder_def)
  with g5 have "length (Roots g [''A'', ''D'']) = length ?s" by blast
  then have r2: "length (Roots g [''A'', ''D'']) = 2" by simp
  from g2 have c2: "card (dom (vertices g)) = 2" by simp
  from g3 have l2: "length (vertexStore g) = 2" by simp
  from g c2 l2 g4 r r2
  have "\<exists>g. makeDependencyGraph ?s exampleOptions [''D'', ''A''] = Inr g \<and>
        card (dom (vertices g)) = 2 \<and> length (vertexStore g) = 2 \<and> edgeStore g = [] \<and>
        rangeOrder (vertices g) [''A'', ''D''] \<and> length (Roots g [''A'', ''D'']) = 2"
    by (intro exI [of _ g] conjI)
  with h1 h2' show ?thesis by (intro conjI)
qed

lemma alloc_last:
  assumes "i < length s" and "\<forall>j. i < j \<and> j < length s \<longrightarrow> URN (s ! j) \<noteq> URN (s ! i)"
  shows "vertices (allocVertices opts s emptyGraph) (URN (s ! i)) = Some i"
proof -
  let ?m = "vertices (allocVertices opts s emptyGraph)"
  from assms(1) have "URN (s ! i) \<in> dom ?m" by (simp add: alloc_dom)
  then obtain v where v: "?m (URN (s ! i)) = Some v" by blast
  from alloc_lookup [OF v] have *: "v < length s" "URN (s ! v) = URN (s ! i)"
    "\<forall>j. v < j \<and> j < length s \<longrightarrow> URN (s ! j) \<noteq> URN (s ! i)" by simp_all
  have "\<not> i < v" using assms(2) *(1,2) by blast
  moreover have "\<not> v < i" using *(3) assms(1) by blast
  ultimately have "v = i" by simp
  with v show ?thesis by simp
qed

text \<open>
  C10. In a graph that the builder returned the map of vertices has one entry for each
  distinct URN of the snapshot, so as many vertices as distinct URNs. The entry of a URN
  is the vertex allocated for the last record with that URN, and that vertex refers to
  that record: a later record overwrites the map entry of an earlier one with the same
  URN.
\<close>

theorem duplicate_identifiers_keep_last_record:
  assumes "makeDependencyGraph snapshot opts order = Inr g"
  shows "dom (vertices g) = set (map URN snapshot) \<and>
         card (dom (vertices g)) = card (set (map URN snapshot)) \<and>
         (\<forall>k v. vertices g k = Some v \<longrightarrow>
            v < length snapshot \<and> URN (snapshot ! v) = k \<and>
            (\<forall>j. v < j \<and> j < length snapshot \<longrightarrow> URN (snapshot ! j) \<noteq> k) \<and>
            resource (vertexStore g ! v) = snapshot ! v) \<and>
         (\<forall>i<length snapshot.
            (\<forall>j. i < j \<and> j < length snapshot \<longrightarrow> URN (snapshot ! j) \<noteq> URN (snapshot ! i)) \<longrightarrow>
            vertices g (URN (snapshot ! i)) = Some i)"
proof -
  note built = make_built [OF assms]
  have a: "dom (vertices g) = set (map URN snapshot)" by (simp add: built(1) alloc_dom)
  have b: "\<forall>k v. vertices g k = Some v \<longrightarrow>
            v < length snapshot \<and> URN (snapshot ! v) = k \<and>
            (\<forall>j. v < j \<and> j < length snapshot \<longrightarrow> URN (snapshot ! j) \<noteq> k) \<and>
            resource (vertexStore g ! v) = snapshot ! v"
  proof (intro allI impI)
    fix k v assume "vertices g k = Some v"
    then have "vertices (allocVertices opts snapshot emptyGraph) k = Some v"
      by (simp add: built(1))
    from alloc_lookup [OF this]
    have l: "v < length snapshot \<and> URN (snapshot ! v) = k \<and>
            (\<forall>j. v < j \<and> j < length snapshot \<longrightarrow> URN (snapshot ! j) \<noteq> k)" .
    then have "v < length (vertexStore g)" by (metis built(2) length_map)
    then have "resource (vertexStore g ! v) = map resource (vertexStore g) ! v" by simp
    with built(2) have "resource (vertexStore g ! v) = snapshot ! v" by simp
    with l show "v < length snapshot \<and> URN (snapshot ! v) = k \<and>
            (\<forall>j. v < j \<and> j < length snapshot \<longrightarrow> URN (snapshot ! j) \<noteq> k) \<and>
            resource (vertexStore g ! v) = snapshot ! v" by blast
  qed
  have c: "\<forall>i<length snapshot.
            (\<forall>j. i < j \<and> j < length snapshot \<longrightarrow> URN (snapshot ! j) \<noteq> URN (snapshot ! i)) \<longrightarrow>
            vertices g (URN (snapshot ! i)) = Some i"
  proof (intro allI impI)
    fix i
    assume "i < length snapshot"
      and "\<forall>j. i < j \<and> j < length snapshot \<longrightarrow> URN (snapshot ! j) \<noteq> URN (snapshot ! i)"
    then show "vertices g (URN (snapshot ! i)) = Some i"
      unfolding built(1) by (rule alloc_last)
  qed
  from a have a2: "card (dom (vertices g)) = card (set (map URN snapshot))" by (rule arg_cong)
  from a a2 b c show ?thesis by (intro conjI)
qed

theorem duplicate_identifiers_keep_last_record_witness:
  "(\<exists>g. makeDependencyGraph [resourceC, resourceA, resourceC\<lparr>Parent := []\<rparr>] exampleOptions
          [''C'', ''A''] = Inr g \<and>
        length [resourceC, resourceA, resourceC\<lparr>Parent := []\<rparr>] = 3 \<and>
        card (dom (vertices g)) = 2 \<and>
        vertices g ''C'' = Some 2 \<and>
        resource (vertexStore g ! 2) = resourceC\<lparr>Parent := []\<rparr> \<and>
        resource (vertexStore g ! 2) \<noteq> resourceC)"
proof -
  let ?s = "[resourceC, resourceA, resourceC\<lparr>Parent := []\<rparr>]"
  have "\<exists>g. makeDependencyGraph ?s exampleOptions [''C'', ''A''] = Inr g"
    by (simp add: build_defs example_defs)
  then obtain g where g: "makeDependencyGraph ?s exampleOptions [''C'', ''A''] = Inr g" ..
  note t = duplicate_identifiers_keep_last_record [OF g]
  note t2 = t [THEN conjunct2, THEN conjunct1]
  note t3 = t [THEN conjunct2, THEN conjunct2, THEN conjunct1, rule_format, of "''C''" 2]
  note t4 = t [THEN conjunct2, THEN conjunct2, THEN conjunct2, rule_format, of 2]
  have "set (map URN ?s) = {''A'', ''C''}" by (auto simp: example_defs)
  then have "card (set (map URN ?s)) = 2" by simp
  with t2 have card: "card (dom (vertices g)) = 2" by (simp only:)
  have "vertices g (URN (?s ! 2)) = Some 2" by (rule t4) auto
  then have v': "vertices g ''C'' = Some 2" by (simp add: example_defs)
  note t3' = t3 [OF v', THEN conjunct2, THEN conjunct2, THEN conjunct2]
  from t3' have r: "resource (vertexStore g ! 2) = resourceC\<lparr>Parent := []\<rparr>" by simp
  then have r': "resource (vertexStore g ! 2) \<noteq> resourceC" by (simp add: example_defs)
  have len: "length ?s = 3" by simp
  from g len card v' r r'
  have "makeDependencyGraph ?s exampleOptions [''C'', ''A''] = Inr g \<and>
        length ?s = 3 \<and> card (dom (vertices g)) = 2 \<and> vertices g ''C'' = Some 2 \<and>
        resource (vertexStore g ! 2) = resourceC\<lparr>Parent := []\<rparr> \<and>
        resource (vertexStore g ! 2) \<noteq> resourceC"
    by (intro conjI)
  then show ?thesis by (rule exI)
qed

section \<open>The edges of one vertex: parents, missing references, dependencies\<close>

lemma edgesOfKeys_Nil: "edgesOfKeys opts m s [] = []"
  by (simp add: edgesOfKeys_def)

lemma edgesOfKeys_Cons:
  "edgesOfKeys opts m s (k # ks) =
     (case m k of None \<Rightarrow> [] | Some v \<Rightarrow> edgesOf opts m v (s ! v)) @ edgesOfKeys opts m s ks"
  by (simp add: edgesOfKeys_def)

lemma filter_edgesOfKeys_others:
  assumes "k \<notin> set ks"
    and "\<forall>k'. m k' = Some v \<longrightarrow> k' = k"
    and "\<forall>k' v'. m k' = Some v' \<longrightarrow> v' \<noteq> v \<longrightarrow> filter P (edgesOf opts m v' (s ! v')) = []"
  shows "filter P (edgesOfKeys opts m s ks) = []"
  using assms(1)
proof (induction ks)
  case Nil
  show ?case by (simp add: edgesOfKeys_Nil)
next
  case (Cons a ks)
  from Cons.prems have a: "a \<noteq> k" and nk: "k \<notin> set ks" by auto
  from nk have IH: "filter P (edgesOfKeys opts m s ks) = []" by (rule Cons.IH)
  show ?case
  proof (cases "m a")
    case None
    with IH show ?thesis by (simp add: edgesOfKeys_Cons)
  next
    case (Some v')
    with a assms(2) have "v' \<noteq> v" by blast
    with Some assms(3) have "filter P (edgesOf opts m v' (s ! v')) = []" by blast
    with Some IH show ?thesis by (simp add: edgesOfKeys_Cons)
  qed
qed

lemma filter_edgesOfKeys:
  assumes "distinct ks" and "k \<in> set ks" and "m k = Some v"
    and "\<forall>k'. m k' = Some v \<longrightarrow> k' = k"
    and "\<forall>k' v'. m k' = Some v' \<longrightarrow> v' \<noteq> v \<longrightarrow> filter P (edgesOf opts m v' (s ! v')) = []"
  shows "filter P (edgesOfKeys opts m s ks) = filter P (edgesOf opts m v (s ! v))"
  using assms(1,2)
proof (induction ks)
  case Nil
  then show ?case by simp
next
  case (Cons a ks)
  show ?case
  proof (cases "a = k")
    case True
    with Cons.prems have "k \<notin> set ks" by simp
    then have "filter P (edgesOfKeys opts m s ks) = []"
      using assms(4,5) by (rule filter_edgesOfKeys_others)
    with True assms(3) show ?thesis by (simp add: edgesOfKeys_Cons)
  next
    case False
    with Cons.prems have "distinct ks" "k \<in> set ks" by simp_all
    then have IH: "filter P (edgesOfKeys opts m s ks) = filter P (edgesOf opts m v (s ! v))"
      by (rule Cons.IH)
    show ?thesis
    proof (cases "m a")
      case None
      with IH show ?thesis by (simp add: edgesOfKeys_Cons)
    next
      case (Some v')
      with False assms(4) have "v' \<noteq> v" by blast
      with Some assms(5) have "filter P (edgesOf opts m v' (s ! v')) = []" by blast
      with Some IH show ?thesis by (simp add: edgesOfKeys_Cons)
    qed
  qed
qed

lemma edgesOf_to_from:
  assumes "e \<in> set (edgesOf opts m v r)"
  shows "(isDependencyEdge e \<longrightarrow> edge_to e = Some v) \<and> (isParentEdge e \<longrightarrow> edge_from e = Some v)"
proof -
  from assms have "e \<in> set (dependencyEdgesOf opts m v r) \<or> e \<in> set (parentEdgesOf opts m v r)"
    unfolding edgesOf_member by blast
  then show ?thesis
  proof
    assume "e \<in> set (dependencyEdgesOf opts m v r)"
    then obtain d where "e = dependencyEdge (Some v) (m d)
        (depBlame (PropertyDependencies r) (\<lambda>_. []) d) (dependencyEdgeColor opts)"
      unfolding dependencyEdgesOf_member by blast
    then show ?thesis by simp
  next
    assume "e \<in> set (parentEdgesOf opts m v r)"
    then have "e = parentEdge (m (Parent r)) (Some v) (parentEdgeColor opts)"
      unfolding parentEdgesOf_member by blast
    then show ?thesis by simp
  qed
qed

lemma filter_parent_edgesOf:
  "filter (\<lambda>e. isParentEdge e \<and> edge_from e = Some v) (edgesOf opts m v r) =
     (if \<not> ignoreParentEdges opts then parentEdgesOf opts m v r else [])"
proof -
  have "filter (\<lambda>e. isParentEdge e \<and> edge_from e = Some v) (dependencyEdgesOf opts m v r) = []"
    by (simp add: dependencyEdgesOf_def filter_empty_conv)
  moreover have "filter (\<lambda>e. isParentEdge e \<and> edge_from e = Some v) (parentEdgesOf opts m v r) =
      parentEdgesOf opts m v r"
    by (simp add: parentEdgesOf_def)
  ultimately show ?thesis by (simp add: edgesOf_def)
qed

lemma filter_dependency_edgesOf:
  assumes "m D = Some w" and "\<forall>d. m d = Some w \<longrightarrow> d = D"
  shows "length (filter (\<lambda>e. isDependencyEdge e \<and> edge_to e = Some v \<and> edge_from e = Some w)
           (edgesOf opts m v r)) =
         (if \<not> ignoreDependencyEdges opts then count_list (Dependencies r) D else 0)"
proof -
  let ?P = "\<lambda>e. isDependencyEdge e \<and> edge_to e = Some v \<and> edge_from e = Some w"
  have p: "filter ?P (parentEdgesOf opts m v r) = []"
    by (simp add: parentEdgesOf_def)
  have "filter ?P (dependencyEdgesOf opts m v r) =
      map (\<lambda>d. dependencyEdge (Some v) (m d) (depBlame (PropertyDependencies r) (\<lambda>_. []) d)
                (dependencyEdgeColor opts))
          (filter (\<lambda>d. m d = Some w) (Dependencies r))"
    by (simp add: dependencyEdgesOf_def filter_map comp_def)
  moreover have "filter (\<lambda>d. m d = Some w) (Dependencies r) = filter ((=) D) (Dependencies r)"
  proof (rule filter_cong [OF refl])
    fix d show "(m d = Some w) = (D = d)" using assms by blast
  qed
  ultimately have "length (filter ?P (dependencyEdgesOf opts m v r)) =
      count_list (Dependencies r) D"
    by (simp add: count_list_eq_length_filter)
  with p show ?thesis by (simp add: edgesOf_def)
qed

lemma outsOf_member: "e \<in> set (outsOf es v) \<longleftrightarrow> e < length es \<and> edge_from (es ! e) = Some v"
  by (auto simp: outsOf_def)

lemma insOf_member:
  "e \<in> set (insOf es v) \<longleftrightarrow>
     e < length es \<and> isDependencyEdge (es ! e) \<and> edge_to (es ! e) = Some v"
  by (auto simp: insOf_def)

lemma built_lists:
  assumes "makeDependencyGraph s opts ks = Inr g" and "u < length (vertexStore g)"
  shows "incomingEdges (vertexStore g ! u) = insOf (edgeStore g) u"
    and "outgoingEdges (vertexStore g ! u) = outsOf (edgeStore g) u"
  using make_built(3) [OF assms(1)] assms(2) unfolding indexed_def by blast+

lemma built_length:
  assumes "makeDependencyGraph s opts ks = Inr g"
  shows "length (vertexStore g) = length s"
  using make_built(2) [OF assms] by (metis length_map)

lemma held_vertex:
  assumes "visitOrder s ks" and "i < length s"
    and "\<forall>j. i < j \<and> j < length s \<longrightarrow> URN (s ! j) \<noteq> URN (s ! i)"
  shows "vertices (allocVertices opts s emptyGraph) (URN (s ! i)) = Some i"
    and "URN (s ! i) \<in> set ks"
    and "\<forall>k'. vertices (allocVertices opts s emptyGraph) k' = Some i \<longrightarrow> k' = URN (s ! i)"
    and "distinct ks"
proof -
  show v: "vertices (allocVertices opts s emptyGraph) (URN (s ! i)) = Some i"
    using assms(2,3) by (rule alloc_last)
  from assms(1) have ks: "distinct ks" "set ks = set (map URN s)"
    by (simp_all add: visitOrder_def)
  from ks(1) show "distinct ks" .
  from assms(2) have "URN (s ! i) \<in> set (map URN s)" by simp
  with ks(2) show "URN (s ! i) \<in> set ks" by simp
  show "\<forall>k'. vertices (allocVertices opts s emptyGraph) k' = Some i \<longrightarrow> k' = URN (s ! i)"
    using alloc_inj [OF _ v] by blast
qed

text \<open>
  C4. Let the record \<open>i\<close> of the snapshot be the one that the graph holds a vertex for
  (no later record has its URN; with distinct URNs this is every record), let its parent
  be non-empty and let parent edges not be ignored. Then the vertex of the record is the
  vertex \<open>i\<close>, the graph has exactly one \<^verbatim>\<open>parentEdge\<close> object whose \<^verbatim>\<open>from\<close> is that vertex,
  its \<^verbatim>\<open>to\<close> is the result of looking the parent up in the map of vertices and its color
  is \<^verbatim>\<open>parentEdgeColor\<close>; the edge is in the outgoing list of the vertex \<open>i\<close>, in the outgoing
  list of no other vertex, and in the incoming list of no vertex.
\<close>

theorem parent_edge_on_child_only:
  assumes g: "makeDependencyGraph snapshot opts order = Inr g"
    and ord: "visitOrder snapshot order"
    and i: "i < length snapshot"
    and last: "\<forall>j. i < j \<and> j < length snapshot \<longrightarrow> URN (snapshot ! j) \<noteq> URN (snapshot ! i)"
    and par: "Parent (snapshot ! i) \<noteq> []"
    and ign: "\<not> ignoreParentEdges opts"
  shows "vertices g (URN (snapshot ! i)) = Some i \<and>
         filter (\<lambda>e. isParentEdge e \<and> edge_from e = Some i) (edgeStore g) =
           [parentEdge (vertices g (Parent (snapshot ! i))) (Some i) (parentEdgeColor opts)] \<and>
         (\<forall>e<length (edgeStore g).
            isParentEdge (edgeStore g ! e) \<and> edge_from (edgeStore g ! e) = Some i \<longrightarrow>
            e \<in> set (outgoingEdges (vertexStore g ! i)) \<and>
            (\<forall>u<length (vertexStore g).
               e \<notin> set (incomingEdges (vertexStore g ! u)) \<and>
               (u \<noteq> i \<longrightarrow> e \<notin> set (outgoingEdges (vertexStore g ! u)))))"
proof -
  let ?m = "vertices (allocVertices opts snapshot emptyGraph)"
  let ?P = "\<lambda>e. isParentEdge e \<and> edge_from e = Some i"
  note built = make_built [OF g]
  note held1 = held_vertex(1) [OF ord i last, of opts]
  note held2 = held_vertex(2) [OF ord i last]
  note held3 = held_vertex(3) [OF ord i last, of opts]
  note held4 = held_vertex(4) [OF ord i last]
  have a: "vertices g (URN (snapshot ! i)) = Some i" unfolding built(1) by (rule held1)
  have others: "\<forall>k' v'. ?m k' = Some v' \<longrightarrow> v' \<noteq> i \<longrightarrow>
      filter ?P (edgesOf opts ?m v' (snapshot ! v')) = []"
  proof (intro allI impI)
    fix k' v' assume "v' \<noteq> i"
    then have "\<forall>e\<in>set (edgesOf opts ?m v' (snapshot ! v')). \<not> ?P e"
      using edgesOf_to_from [of _ opts ?m v' "snapshot ! v'"] by auto
    then show "filter ?P (edgesOf opts ?m v' (snapshot ! v')) = []"
      by (simp only: filter_empty_conv)
  qed
  have "filter ?P (edgeStore g) = filter ?P (edgesOf opts ?m i (snapshot ! i))"
    unfolding built(4) by (rule filter_edgesOfKeys [OF held4 held2 held1 held3 others])
  also have "\<dots> = parentEdgesOf opts ?m i (snapshot ! i)"
    using ign by (simp add: filter_parent_edgesOf)
  also have "\<dots> = [parentEdge (?m (Parent (snapshot ! i))) (Some i) (parentEdgeColor opts)]"
    using par by (simp add: parentEdgesOf_def)
  finally have b: "filter ?P (edgeStore g) =
      [parentEdge (vertices g (Parent (snapshot ! i))) (Some i) (parentEdgeColor opts)]"
    by (simp only: built(1))
  have len: "length (vertexStore g) = length snapshot" using g by (rule built_length)
  have c: "\<forall>e<length (edgeStore g).
            isParentEdge (edgeStore g ! e) \<and> edge_from (edgeStore g ! e) = Some i \<longrightarrow>
            e \<in> set (outgoingEdges (vertexStore g ! i)) \<and>
            (\<forall>u<length (vertexStore g).
               e \<notin> set (incomingEdges (vertexStore g ! u)) \<and>
               (u \<noteq> i \<longrightarrow> e \<notin> set (outgoingEdges (vertexStore g ! u))))"
  proof (intro allI impI)
    fix e
    assume e: "e < length (edgeStore g)"
      and pe: "isParentEdge (edgeStore g ! e) \<and> edge_from (edgeStore g ! e) = Some i"
    from i len have "i < length (vertexStore g)" by simp
    from built_lists(2) [OF g this] e pe
    have c1: "e \<in> set (outgoingEdges (vertexStore g ! i))" by (simp add: outsOf_member)
    have c2: "\<forall>u<length (vertexStore g).
               e \<notin> set (incomingEdges (vertexStore g ! u)) \<and>
               (u \<noteq> i \<longrightarrow> e \<notin> set (outgoingEdges (vertexStore g ! u)))"
    proof (intro allI impI)
      fix u assume u: "u < length (vertexStore g)"
      from pe have "\<not> isDependencyEdge (edgeStore g ! e)" by (simp add: edge_kind)
      then have "e \<notin> set (incomingEdges (vertexStore g ! u))"
        by (simp add: built_lists(1) [OF g u] insOf_member)
      moreover from pe have "u \<noteq> i \<longrightarrow> e \<notin> set (outgoingEdges (vertexStore g ! u))"
        by (simp add: built_lists(2) [OF g u] outsOf_member)
      ultimately show "e \<notin> set (incomingEdges (vertexStore g ! u)) \<and>
               (u \<noteq> i \<longrightarrow> e \<notin> set (outgoingEdges (vertexStore g ! u)))" by (rule conjI)
    qed
    from c1 c2 show "e \<in> set (outgoingEdges (vertexStore g ! i)) \<and>
            (\<forall>u<length (vertexStore g).
               e \<notin> set (incomingEdges (vertexStore g ! u)) \<and>
               (u \<noteq> i \<longrightarrow> e \<notin> set (outgoingEdges (vertexStore g ! u))))" by (rule conjI)
  qed
  from a b c show ?thesis by (intro conjI)
qed


theorem parent_edge_on_child_only_witness:
  "makeDependencyGraph exampleSnapshot exampleOptions [''A'', ''B'', ''C''] = Inr exampleGraph \<and>
   visitOrder exampleSnapshot [''A'', ''B'', ''C''] \<and>
   distinct (map URN exampleSnapshot) \<and>
   Parent (exampleSnapshot ! 2) = ''B'' \<and>
   \<not> ignoreParentEdges exampleOptions \<and>
   vertices exampleGraph ''C'' = Some 2 \<and>
   vertices exampleGraph ''B'' = Some 1 \<and>
   filter (\<lambda>e. isParentEdge e \<and> edge_from e = Some 2) (edgeStore exampleGraph) =
     [parentEdge (Some 1) (Some 2) ''#AA6639''] \<and>
   edgeStore exampleGraph ! 1 = parentEdge (Some 1) (Some 2) ''#AA6639'' \<and>
   1 \<in> set (outgoingEdges (vertexStore exampleGraph ! 2)) \<and>
   1 \<notin> set (incomingEdges (vertexStore exampleGraph ! 1)) \<and>
   1 \<notin> set (outgoingEdges (vertexStore exampleGraph ! 1))"
proof -
  have vo: "visitOrder exampleSnapshot [''A'', ''B'', ''C'']"
    by (auto simp: visitOrder_def example_defs)
  have d: "distinct (map URN exampleSnapshot)" by (simp add: example_defs)
  have i: "2 < length exampleSnapshot" by (simp add: exampleSnapshot_def)
  have last: "\<forall>j. 2 < j \<and> j < length exampleSnapshot \<longrightarrow>
      URN (exampleSnapshot ! j) \<noteq> URN (exampleSnapshot ! 2)"
    by (auto simp: exampleSnapshot_def)
  have par: "Parent (exampleSnapshot ! 2) \<noteq> []" by (simp add: example_defs)
  have par': "Parent (exampleSnapshot ! 2) = ''B''" by (simp add: example_defs)
  have ign: "\<not> ignoreParentEdges exampleOptions" by (simp add: exampleOptions_def)
  note t = parent_edge_on_child_only [OF example_built vo i last par ign]
  have urn: "URN (exampleSnapshot ! 2) = ''C''" by (simp add: example_defs)
  have vb: "vertices exampleGraph ''B'' = Some 1" by (simp add: exampleGraph_def)
  have col: "parentEdgeColor exampleOptions = ''#AA6639''" by (simp add: exampleOptions_def)
  from t [THEN conjunct1] have t1: "vertices exampleGraph ''C'' = Some 2" by (simp only: urn)
  from t [THEN conjunct2, THEN conjunct1]
  have t2: "filter (\<lambda>e. isParentEdge e \<and> edge_from e = Some 2) (edgeStore exampleGraph) =
     [parentEdge (Some 1) (Some 2) ''#AA6639'']" by (simp only: par' vb col)
  have e1: "edgeStore exampleGraph ! 1 = parentEdge (Some 1) (Some 2) ''#AA6639''"
    by (simp add: exampleGraph_def)
  have el: "1 < length (edgeStore exampleGraph)" by (simp add: exampleGraph_def)
  have ep: "isParentEdge (edgeStore exampleGraph ! 1) \<and>
      edge_from (edgeStore exampleGraph ! 1) = Some 2" unfolding e1 by simp
  note t3 = t [THEN conjunct2, THEN conjunct2, rule_format, OF el ep]
  have ul: "1 < length (vertexStore exampleGraph)" by (simp add: exampleGraph_def)
  note t3u = t3 [THEN conjunct2, rule_format, OF ul]
  from t3 have o2: "1 \<in> set (outgoingEdges (vertexStore exampleGraph ! 2))" by (rule conjunct1)
  from t3u have i1: "1 \<notin> set (incomingEdges (vertexStore exampleGraph ! 1))" by (rule conjunct1)
  have "(1::nat) \<noteq> 2" by simp
  with t3u have o1: "1 \<notin> set (outgoingEdges (vertexStore exampleGraph ! 1))" by blast
  from example_built vo d par' ign t1 vb t2 e1 o2 i1 o1 show ?thesis by (intro conjI)
qed

lemma held_by_lookup:
  assumes "vertices (allocVertices opts s emptyGraph) k = Some v"
  shows "v < length s" and "k = URN (s ! v)"
    and "\<forall>j. v < j \<and> j < length s \<longrightarrow> URN (s ! j) \<noteq> URN (s ! v)"
  using alloc_lookup [OF assms] by simp_all

text \<open>
  C7, as the code has it. When the loop visits every key of the map once, the builder
  panics with a nil pointer dereference exactly when dependency edges are not ignored and
  a record that the graph holds a vertex for (no later record has its URN) lists a
  dependency URN that no record of the snapshot has; in every other case it returns a
  graph. A parent URN that no record has takes no part in this: it never makes the
  builder fail.
\<close>

theorem missing_dependency_panics:
  assumes ord: "visitOrder snapshot order"
  shows "((makeDependencyGraph snapshot opts order = Inl NilPointerDereference) \<longleftrightarrow>
          (\<not> ignoreDependencyEdges opts \<and>
           (\<exists>i<length snapshot.
              (\<forall>j. i < j \<and> j < length snapshot \<longrightarrow> URN (snapshot ! j) \<noteq> URN (snapshot ! i)) \<and>
              (\<exists>d\<in>set (Dependencies (snapshot ! i)). d \<notin> set (map URN snapshot))))) \<and>
         ((\<exists>g. makeDependencyGraph snapshot opts order = Inr g) \<longleftrightarrow>
          makeDependencyGraph snapshot opts order \<noteq> Inl NilPointerDereference)"
proof (rule conjI)
  let ?m = "vertices (allocVertices opts snapshot emptyGraph)"
  define bad where "bad = (\<lambda>i. \<exists>d\<in>set (Dependencies (snapshot ! i)). d \<notin> set (map URN snapshot))"
  define lastOf where "lastOf = (\<lambda>i. \<forall>j. i < j \<and> j < length snapshot \<longrightarrow>
      URN (snapshot ! j) \<noteq> URN (snapshot ! i))"
  have "(\<exists>k\<in>set order. \<exists>v. ?m k = Some v \<and> bad v) \<longleftrightarrow>
        (\<exists>i<length snapshot. lastOf i \<and> bad i)"
  proof
    assume "\<exists>k\<in>set order. \<exists>v. ?m k = Some v \<and> bad v"
    then obtain k v where kv: "?m k = Some v" "bad v" by blast
    from held_by_lookup(1,3) [OF kv(1)] have "v < length snapshot" "lastOf v"
      unfolding lastOf_def by blast+
    with kv(2) show "\<exists>i<length snapshot. lastOf i \<and> bad i" by blast
  next
    assume "\<exists>i<length snapshot. lastOf i \<and> bad i"
    then obtain i where i: "i < length snapshot" "lastOf i" "bad i" by blast
    from i(2) have l: "\<forall>j. i < j \<and> j < length snapshot \<longrightarrow>
      URN (snapshot ! j) \<noteq> URN (snapshot ! i)" unfolding lastOf_def .
    from held_vertex(1) [OF ord i(1) l, of opts] held_vertex(2) [OF ord i(1) l] i(3)
    show "\<exists>k\<in>set order. \<exists>v. ?m k = Some v \<and> bad v" by blast
  qed
  then have "(makeDependencyGraph snapshot opts order = Inl NilPointerDereference) \<longleftrightarrow>
          (\<not> ignoreDependencyEdges opts \<and> (\<exists>i<length snapshot. lastOf i \<and> bad i))"
    unfolding make_panics bad_def by (rule arg_cong)
  then show "(makeDependencyGraph snapshot opts order = Inl NilPointerDereference) \<longleftrightarrow>
          (\<not> ignoreDependencyEdges opts \<and>
           (\<exists>i<length snapshot.
              (\<forall>j. i < j \<and> j < length snapshot \<longrightarrow> URN (snapshot ! j) \<noteq> URN (snapshot ! i)) \<and>
              (\<exists>d\<in>set (Dependencies (snapshot ! i)). d \<notin> set (map URN snapshot))))"
    unfolding bad_def lastOf_def .
next
  show "(\<exists>g. makeDependencyGraph snapshot opts order = Inr g) \<longleftrightarrow>
          makeDependencyGraph snapshot opts order \<noteq> Inl NilPointerDereference"
    using make_total [of snapshot opts order] by auto
qed


theorem missing_dependency_panics_witness:
  "visitOrder [resourceB] [''B''] \<and>
   \<not> ignoreDependencyEdges exampleOptions \<and>
   ''A'' \<in> set (Dependencies ([resourceB] ! 0)) \<and>
   ''A'' \<notin> set (map URN [resourceB]) \<and>
   makeDependencyGraph [resourceB] exampleOptions [''B''] = Inl NilPointerDereference"
proof -
  have vo: "visitOrder [resourceB] [''B'']" by (simp add: visitOrder_def resourceB_def)
  have ign: "\<not> ignoreDependencyEdges exampleOptions" by (simp add: exampleOptions_def)
  have dep: "''A'' \<in> set (Dependencies ([resourceB] ! 0))" by (simp add: resourceB_def)
  have mis: "''A'' \<notin> set (map URN [resourceB])" by (simp add: resourceB_def)
  have i: "0 < length [resourceB]" by simp
  have last: "\<forall>j. 0 < j \<and> j < length [resourceB] \<longrightarrow>
      URN ([resourceB] ! j) \<noteq> URN ([resourceB] ! 0)" by auto
  from dep mis have "\<exists>d\<in>set (Dependencies ([resourceB] ! 0)). d \<notin> set (map URN [resourceB])"
    by (rule bexI [rotated])
  with i last have "\<exists>i<length [resourceB].
      (\<forall>j. i < j \<and> j < length [resourceB] \<longrightarrow> URN ([resourceB] ! j) \<noteq> URN ([resourceB] ! i)) \<and>
      (\<exists>d\<in>set (Dependencies ([resourceB] ! i)). d \<notin> set (map URN [resourceB]))"
    by blast
  with ign missing_dependency_panics [OF vo, of exampleOptions, THEN conjunct1]
  have "makeDependencyGraph [resourceB] exampleOptions [''B''] = Inl NilPointerDereference"
    by blast
  with vo ign dep mis show ?thesis by (intro conjI)
qed

text \<open>
  C7 as stated fails for a parent: the snapshot of the single resource \<open>C\<close>, whose parent
  \<open>B\<close> is not in the snapshot, gives a graph, and the graph has a parent edge whose \<^verbatim>\<open>to\<close>
  is nil.
\<close>

theorem missing_parent_is_not_detected:
  "Parent resourceC = ''B'' \<and> ''B'' \<notin> set (map URN [resourceC]) \<and>
   \<not> ignoreParentEdges exampleOptions \<and>
   map_sum id edgeStore (makeDependencyGraph [resourceC] exampleOptions [''C'']) =
     Inr [parentEdge None (Some 0) ''#AA6639'']"
  by (simp add: build_defs example_defs)

lemma distinct_last:
  assumes "distinct (map URN s)" and "i < length s"
  shows "\<forall>j. i < j \<and> j < length s \<longrightarrow> URN (s ! j) \<noteq> URN (s ! i)"
proof (intro allI impI)
  fix j assume j: "i < j \<and> j < length s"
  with assms have "map URN s ! j \<noteq> map URN s ! i"
    by (metis length_map nat_neq_iff nth_eq_iff_index_eq)
  with j assms(2) show "URN (s ! j) \<noteq> URN (s ! i)" by simp
qed

lemma filter_dependency_others:
  assumes "v' \<noteq> v"
  shows "filter (\<lambda>e. isDependencyEdge e \<and> edge_to e = Some v \<and> edge_from e = Some w)
           (edgesOf opts m v' r) = []"
proof -
  have "\<forall>e\<in>set (edgesOf opts m v' r).
      \<not> (isDependencyEdge e \<and> edge_to e = Some v \<and> edge_from e = Some w)"
    using edgesOf_to_from [of _ opts m v' r] assms by auto
  then show ?thesis by (simp only: filter_empty_conv)
qed

text \<open>
  C2, as the code has it. Let the URNs of the snapshot be distinct, let every dependency
  URN be the URN of a record, let the loop visit every key once and let dependency edges
  not be ignored. Then the builder returns a graph, and for a record \<open>i\<close> that lists \<open>D\<close> in
  its dependencies the graph has as many \<^verbatim>\<open>dependencyEdge\<close> objects with \<^verbatim>\<open>to\<close> the vertex of
  the record and \<^verbatim>\<open>from\<close> the vertex of \<open>D\<close> as \<open>D\<close> occurs in the list: exactly one when
  \<open>D\<close> is listed once. Each of these edge objects is in the incoming list of the vertex of
  the record and in the outgoing list of the vertex of \<open>D\<close>.
\<close>

theorem dependency_edges_per_listed_identifier:
  assumes dist: "distinct (map URN snapshot)"
    and cons: "\<forall>r\<in>set snapshot. set (Dependencies r) \<subseteq> set (map URN snapshot)"
    and ord: "visitOrder snapshot order"
    and ign: "\<not> ignoreDependencyEdges opts"
    and i: "i < length snapshot"
    and D: "D \<in> set (Dependencies (snapshot ! i))"
  shows "\<exists>g j. makeDependencyGraph snapshot opts order = Inr g \<and>
           vertices g (URN (snapshot ! i)) = Some i \<and> vertices g D = Some j \<and>
           length (filter (\<lambda>e. isDependencyEdge e \<and> edge_to e = Some i \<and> edge_from e = Some j)
                     (edgeStore g)) = count_list (Dependencies (snapshot ! i)) D \<and>
           (\<forall>e<length (edgeStore g).
              isDependencyEdge (edgeStore g ! e) \<and> edge_to (edgeStore g ! e) = Some i \<and>
              edge_from (edgeStore g ! e) = Some j \<longrightarrow>
              e \<in> set (incomingEdges (vertexStore g ! i)) \<and>
              e \<in> set (outgoingEdges (vertexStore g ! j)))"
proof -
  let ?m = "vertices (allocVertices opts snapshot emptyGraph)"
  have nopanic: "makeDependencyGraph snapshot opts order \<noteq> Inl NilPointerDereference"
  proof
    assume "makeDependencyGraph snapshot opts order = Inl NilPointerDereference"
    then obtain k v d where kv: "?m k = Some v" "d \<in> set (Dependencies (snapshot ! v))"
      "d \<notin> set (map URN snapshot)" unfolding make_panics by blast
    from held_by_lookup(1) [OF kv(1)] have "snapshot ! v \<in> set snapshot" by (rule nth_mem)
    with cons kv(2,3) show False by blast
  qed
  with make_total [of snapshot opts order] obtain g where
    g: "makeDependencyGraph snapshot opts order = Inr g" by blast
  note built = make_built [OF g]
  note last = distinct_last [OF dist i]
  note held1 = held_vertex(1) [OF ord i last, of opts]
  note held2 = held_vertex(2) [OF ord i last]
  note held3 = held_vertex(3) [OF ord i last, of opts]
  note held4 = held_vertex(4) [OF ord i last]
  have a: "vertices g (URN (snapshot ! i)) = Some i" unfolding built(1) by (rule held1)
  from i have "snapshot ! i \<in> set snapshot" by (rule nth_mem)
  with cons D have "D \<in> set (map URN snapshot)" by blast
  then have "D \<in> dom ?m" by (simp only: alloc_dom)
  then obtain j where j: "?m D = Some j" by blast
  have b: "vertices g D = Some j" unfolding built(1) by (rule j)
  have uniq: "\<forall>d. ?m d = Some j \<longrightarrow> d = D" using alloc_inj [OF _ j] by blast
  let ?P = "\<lambda>e. isDependencyEdge e \<and> edge_to e = Some i \<and> edge_from e = Some j"
  have others: "\<forall>k' v'. ?m k' = Some v' \<longrightarrow> v' \<noteq> i \<longrightarrow>
      filter ?P (edgesOf opts ?m v' (snapshot ! v')) = []"
    using filter_dependency_others by blast
  have "filter ?P (edgeStore g) = filter ?P (edgesOf opts ?m i (snapshot ! i))"
    unfolding built(4) by (rule filter_edgesOfKeys [OF held4 held2 held1 held3 others])
  then have "length (filter ?P (edgeStore g)) =
      length (filter ?P (edgesOf opts ?m i (snapshot ! i)))" by (rule arg_cong)
  also have "\<dots> = count_list (Dependencies (snapshot ! i)) D"
    using ign by (simp add: filter_dependency_edgesOf [OF j uniq])
  finally have c: "length (filter ?P (edgeStore g)) = count_list (Dependencies (snapshot ! i)) D" .
  have len: "length (vertexStore g) = length snapshot" using g by (rule built_length)
  from i len have iv: "i < length (vertexStore g)" by simp
  from held_by_lookup(1) [OF j] len have jv: "j < length (vertexStore g)" by simp
  have d: "\<forall>e<length (edgeStore g).
              isDependencyEdge (edgeStore g ! e) \<and> edge_to (edgeStore g ! e) = Some i \<and>
              edge_from (edgeStore g ! e) = Some j \<longrightarrow>
              e \<in> set (incomingEdges (vertexStore g ! i)) \<and>
              e \<in> set (outgoingEdges (vertexStore g ! j))"
    by (simp add: built_lists(1) [OF g iv] built_lists(2) [OF g jv] insOf_member outsOf_member)
  from g a b c d show ?thesis by (intro exI [of _ g] exI [of _ j] conjI)
qed


theorem dependency_edges_per_listed_identifier_witness:
  "distinct (map URN exampleSnapshot) \<and>
   list_all (\<lambda>r. set (Dependencies r) \<subseteq> set (map URN exampleSnapshot)) exampleSnapshot \<and>
   visitOrder exampleSnapshot [''A'', ''B'', ''C''] \<and>
   \<not> ignoreDependencyEdges exampleOptions \<and>
   ''A'' \<in> set (Dependencies (exampleSnapshot ! 1)) \<and>
   makeDependencyGraph exampleSnapshot exampleOptions [''A'', ''B'', ''C''] = Inr exampleGraph \<and>
   count_list (Dependencies (exampleSnapshot ! 1)) ''A'' = 1 \<and>
   length (filter (\<lambda>e. isDependencyEdge e \<and> edge_to e = Some 1 \<and> edge_from e = Some 0)
             (edgeStore exampleGraph)) = 1 \<and>
   0 \<in> set (incomingEdges (vertexStore exampleGraph ! 1)) \<and>
   0 \<in> set (outgoingEdges (vertexStore exampleGraph ! 0))"
proof -
  have dist: "distinct (map URN exampleSnapshot)" by (simp add: example_defs)
  have cons: "\<forall>r\<in>set exampleSnapshot. set (Dependencies r) \<subseteq> set (map URN exampleSnapshot)"
    by (simp add: example_defs)
  then have cons': "list_all (\<lambda>r. set (Dependencies r) \<subseteq> set (map URN exampleSnapshot))
      exampleSnapshot" by (simp only: list_all_iff)
  have vo: "visitOrder exampleSnapshot [''A'', ''B'', ''C'']"
    by (auto simp: visitOrder_def example_defs)
  have ign: "\<not> ignoreDependencyEdges exampleOptions" by (simp add: exampleOptions_def)
  have i: "1 < length exampleSnapshot" by (simp add: exampleSnapshot_def)
  have D: "''A'' \<in> set (Dependencies (exampleSnapshot ! 1))" by (simp add: example_defs)
  have cnt: "count_list (Dependencies (exampleSnapshot ! 1)) ''A'' = 1" by (simp add: example_defs)
  from dependency_edges_per_listed_identifier [OF dist cons vo ign i D]
  obtain g j where g: "makeDependencyGraph exampleSnapshot exampleOptions [''A'', ''B'', ''C''] = Inr g"
    and j: "vertices g ''A'' = Some j"
    and c: "length (filter (\<lambda>e. isDependencyEdge e \<and> edge_to e = Some 1 \<and> edge_from e = Some j)
                     (edgeStore g)) = count_list (Dependencies (exampleSnapshot ! 1)) ''A''"
    and d: "\<forall>e<length (edgeStore g).
              isDependencyEdge (edgeStore g ! e) \<and> edge_to (edgeStore g ! e) = Some 1 \<and>
              edge_from (edgeStore g ! e) = Some j \<longrightarrow>
              e \<in> set (incomingEdges (vertexStore g ! 1)) \<and>
              e \<in> set (outgoingEdges (vertexStore g ! j))"
    by blast
  from g example_built have gg: "g = exampleGraph" by simp
  have "vertices exampleGraph ''A'' = Some 0" by (simp add: exampleGraph_def)
  with j gg have j0: "j = 0" by simp
  from c cnt have c': "length (filter (\<lambda>e. isDependencyEdge e \<and> edge_to e = Some 1 \<and>
      edge_from e = Some 0) (edgeStore exampleGraph)) = 1"
    by (simp only: gg j0)
  have e0: "edgeStore exampleGraph ! 0 = dependencyEdge (Some 1) (Some 0) [''input''] ''#246C60''"
    by (simp add: exampleGraph_def)
  have el: "0 < length (edgeStore exampleGraph)" by (simp add: exampleGraph_def)
  have ep: "isDependencyEdge (edgeStore exampleGraph ! 0) \<and>
      edge_to (edgeStore exampleGraph ! 0) = Some 1 \<and>
      edge_from (edgeStore exampleGraph ! 0) = Some 0" unfolding e0 by simp
  note d' = d [unfolded gg j0, rule_format, OF el ep]
  from d' have in1: "0 \<in> set (incomingEdges (vertexStore exampleGraph ! 1))" by (rule conjunct1)
  from d' have out0: "0 \<in> set (outgoingEdges (vertexStore exampleGraph ! 0))" by (rule conjunct2)
  from dist cons' vo ign D example_built cnt c' in1 out0 show ?thesis by (intro conjI)
qed

text \<open>
  C2 as stated fails when a dependency list repeats a URN: with \<open>A\<close> listed twice in the
  dependencies of \<open>B\<close>, the graph has two dependency edges from the vertex of \<open>A\<close> to the
  vertex of \<open>B\<close>.
\<close>

theorem repeated_dependency_gives_two_edges:
  "distinct (map URN [resourceA, resourceB\<lparr>Dependencies := [''A'', ''A'']\<rparr>]) \<and>
   set (Dependencies (resourceB\<lparr>Dependencies := [''A'', ''A'']\<rparr>)) \<subseteq>
     set (map URN [resourceA, resourceB\<lparr>Dependencies := [''A'', ''A'']\<rparr>]) \<and>
   map_sum id edgeStore
     (makeDependencyGraph [resourceA, resourceB\<lparr>Dependencies := [''A'', ''A'']\<rparr>]
        exampleOptions [''A'', ''B'']) =
     Inr [dependencyEdge (Some 1) (Some 0) [''input''] ''#246C60'',
          dependencyEdge (Some 1) (Some 0) [''input''] ''#246C60'']"
  by (simp add: build_defs example_defs)

section \<open>The labels of a dependency edge\<close>

lemma blameDeps_set:
  "set (blameDeps k deps b d) = set (b d) \<union> (if d \<in> set deps then {k} else {})"
proof (induction deps arbitrary: b)
  case Nil
  show ?case by simp
next
  case (Cons a deps)
  show ?case unfolding blameDeps.simps Cons.IH by auto
qed

lemma depBlame_set:
  "set (depBlame pd b d) = set (b d) \<union> {p. \<exists>ds. (p, ds) \<in> set pd \<and> d \<in> set ds}"
proof (induction pd arbitrary: b)
  case Nil
  show ?case by simp
next
  case (Cons a pd)
  obtain k deps where a: "a = (k, deps)" by (cases a)
  have "set (depBlame (a # pd) b d) =
      set (blameDeps k deps b d) \<union> {p. \<exists>ds. (p, ds) \<in> set pd \<and> d \<in> set ds}"
    unfolding a depBlame.simps by (rule Cons.IH)
  also have "\<dots> = set (b d) \<union> (if d \<in> set deps then {k} else {}) \<union>
      {p. \<exists>ds. (p, ds) \<in> set pd \<and> d \<in> set ds}"
    by (simp only: blameDeps_set)
  also have "\<dots> = set (b d) \<union> {p. \<exists>ds. (p, ds) \<in> set (a # pd) \<and> d \<in> set ds}"
    unfolding a by auto
  finally show ?case .
qed

text \<open>
  C3. Let the builder return a graph with dependency edges not ignored, let the loop visit
  every key once, and let the record \<open>i\<close> be the one that the graph holds a vertex for (no
  later record has its URN; with distinct URNs this is every record). For every \<open>D\<close> in the
  dependencies of the record the graph has a dependency edge from the vertex of \<open>D\<close> to the
  vertex \<open>i\<close>, and the labels of every such edge are exactly the names of the properties
  of the record whose \<^verbatim>\<open>PropertyDependencies\<close> entry lists \<open>D\<close>. So the edge carries \<open>P\<close> for
  every such property \<open>P\<close>, and both names when two properties list \<open>D\<close>.
\<close>

theorem property_names_label_the_edge:
  assumes g: "makeDependencyGraph snapshot opts order = Inr g"
    and ord: "visitOrder snapshot order"
    and ign: "\<not> ignoreDependencyEdges opts"
    and i: "i < length snapshot"
    and last: "\<forall>j. i < j \<and> j < length snapshot \<longrightarrow> URN (snapshot ! j) \<noteq> URN (snapshot ! i)"
    and D: "D \<in> set (Dependencies (snapshot ! i))"
  shows "\<exists>j. vertices g D = Some j \<and>
           (\<exists>e\<in>set (edgeStore g).
              isDependencyEdge e \<and> edge_to e = Some i \<and> edge_from e = Some j) \<and>
           (\<forall>e\<in>set (edgeStore g).
              isDependencyEdge e \<and> edge_to e = Some i \<and> edge_from e = Some j \<longrightarrow>
              (\<forall>P ds. (P, ds) \<in> set (PropertyDependencies (snapshot ! i)) \<and> D \<in> set ds \<longrightarrow>
                 P \<in> set (labels e)) \<and>
              set (labels e) =
                {P. \<exists>ds. (P, ds) \<in> set (PropertyDependencies (snapshot ! i)) \<and> D \<in> set ds})"
proof -
  let ?m = "vertices (allocVertices opts snapshot emptyGraph)"
  let ?r = "snapshot ! i"
  let ?L = "{P. \<exists>ds. (P, ds) \<in> set (PropertyDependencies ?r) \<and> D \<in> set ds}"
  note built = make_built [OF g]
  note held1 = held_vertex(1) [OF ord i last, of opts]
  note held2 = held_vertex(2) [OF ord i last]
  have "D \<in> set (map URN snapshot)"
  proof (rule ccontr)
    assume "D \<notin> set (map URN snapshot)"
    with D have "\<exists>d\<in>set (Dependencies ?r). d \<notin> set (map URN snapshot)" by blast
    with held1 held2 ign
    have "makeDependencyGraph snapshot opts order = Inl NilPointerDereference"
      unfolding make_panics by blast
    with g show False by simp
  qed
  then have "D \<in> dom ?m" by (simp only: alloc_dom)
  then obtain j where j: "?m D = Some j" by blast
  have a: "vertices g D = Some j" unfolding built(1) by (rule j)
  let ?e0 = "dependencyEdge (Some i) (?m D) (depBlame (PropertyDependencies ?r) (\<lambda>_. []) D)
               (dependencyEdgeColor opts)"
  from D have "?e0 \<in> set (dependencyEdgesOf opts ?m i ?r)"
    unfolding dependencyEdgesOf_member by blast
  with ign have "?e0 \<in> set (edgesOf opts ?m i ?r)" unfolding edgesOf_member by blast
  with held1 held2 have "?e0 \<in> set (edgesOfKeys opts ?m snapshot order)"
    unfolding edgesOfKeys_member by blast
  then have e0: "?e0 \<in> set (edgeStore g)" by (simp only: built(4))
  have e0p: "isDependencyEdge ?e0 \<and> edge_to ?e0 = Some i \<and> edge_from ?e0 = Some j"
    by (simp add: j)
  from e0 e0p have b: "\<exists>e\<in>set (edgeStore g).
      isDependencyEdge e \<and> edge_to e = Some i \<and> edge_from e = Some j" by (rule bexI [rotated])
  have c: "\<forall>e\<in>set (edgeStore g).
              isDependencyEdge e \<and> edge_to e = Some i \<and> edge_from e = Some j \<longrightarrow>
              (\<forall>P ds. (P, ds) \<in> set (PropertyDependencies ?r) \<and> D \<in> set ds \<longrightarrow>
                 P \<in> set (labels e)) \<and>
              set (labels e) = ?L"
  proof (intro ballI impI)
    fix e
    assume e: "e \<in> set (edgeStore g)"
      and p: "isDependencyEdge e \<and> edge_to e = Some i \<and> edge_from e = Some j"
    from e have "e \<in> set (edgesOfKeys opts ?m snapshot order)" by (simp only: built(4))
    then obtain v' where v': "e \<in> set (edgesOf opts ?m v' (snapshot ! v'))"
      unfolding edgesOfKeys_member by blast
    from edgesOf_to_from [OF v'] p have "Some v' = Some i" by simp
    then have vi: "v' = i" by simp
    from v' have "e \<in> set (dependencyEdgesOf opts ?m i ?r) \<or> e \<in> set (parentEdgesOf opts ?m i ?r)"
      unfolding vi edgesOf_member by blast
    moreover have "e \<notin> set (parentEdgesOf opts ?m i ?r)"
    proof
      assume "e \<in> set (parentEdgesOf opts ?m i ?r)"
      then have "e = parentEdge (?m (Parent ?r)) (Some i) (parentEdgeColor opts)"
        unfolding parentEdgesOf_member by blast
      with p show False by simp
    qed
    ultimately have "e \<in> set (dependencyEdgesOf opts ?m i ?r)" by blast
    then obtain d where d: "d \<in> set (Dependencies ?r)"
      and ed: "e = dependencyEdge (Some i) (?m d)
          (depBlame (PropertyDependencies ?r) (\<lambda>_. []) d) (dependencyEdgeColor opts)"
      unfolding dependencyEdgesOf_member by blast
    from p ed have "?m d = Some j" by simp
    from alloc_inj [OF this j] have dD: "d = D" .
    from ed have "labels e = depBlame (PropertyDependencies ?r) (\<lambda>_. []) D"
      unfolding dD by simp
    then have l: "set (labels e) = ?L" by (simp add: depBlame_set)
    then have "\<forall>P ds. (P, ds) \<in> set (PropertyDependencies ?r) \<and> D \<in> set ds \<longrightarrow>
                 P \<in> set (labels e)" by blast
    with l show "(\<forall>P ds. (P, ds) \<in> set (PropertyDependencies ?r) \<and> D \<in> set ds \<longrightarrow>
                 P \<in> set (labels e)) \<and> set (labels e) = ?L" by (rule conjI [rotated])
  qed
  from a b c show ?thesis by (intro exI [of _ j] conjI)
qed


theorem property_names_label_the_edge_witness:
  "visitOrder [resourceA, resourceB\<lparr>PropertyDependencies := [(''input'', [''A'']), (''size'', [''A''])]\<rparr>]
     [''B'', ''A''] \<and>
   \<not> ignoreDependencyEdges exampleOptions \<and>
   ''A'' \<in> set (Dependencies
     ([resourceA, resourceB\<lparr>PropertyDependencies := [(''input'', [''A'']), (''size'', [''A''])]\<rparr>] ! 1)) \<and>
   (\<exists>g. makeDependencyGraph
          [resourceA, resourceB\<lparr>PropertyDependencies := [(''input'', [''A'']), (''size'', [''A''])]\<rparr>]
          exampleOptions [''B'', ''A''] = Inr g \<and>
        vertices g ''A'' = Some 0 \<and>
        edgeStore g = [dependencyEdge (Some 1) (Some 0) [''input'', ''size''] ''#246C60''] \<and>
        ''input'' \<in> set (labels (edgeStore g ! 0)) \<and>
        ''size'' \<in> set (labels (edgeStore g ! 0))) \<and>
   Label (dependencyEdge (Some 1) (Some 0) [''input'', ''size''] ''#246C60'') = ''input, size''"
proof -
  let ?B = "resourceB\<lparr>PropertyDependencies := [(''input'', [''A'']), (''size'', [''A''])]\<rparr>"
  let ?s = "[resourceA, ?B]"
  let ?e = "dependencyEdge (Some 1) (Some 0) [''input'', ''size''] ''#246C60''"
  have vo: "visitOrder ?s [''B'', ''A'']" by (auto simp: visitOrder_def example_defs)
  have ign: "\<not> ignoreDependencyEdges exampleOptions" by (simp add: exampleOptions_def)
  have i: "1 < length ?s" by simp
  have last: "\<forall>j. 1 < j \<and> j < length ?s \<longrightarrow> URN (?s ! j) \<noteq> URN (?s ! 1)" by auto
  have D: "''A'' \<in> set (Dependencies (?s ! 1))" by (simp add: example_defs)
  have "\<exists>g. makeDependencyGraph ?s exampleOptions [''B'', ''A''] = Inr g \<and>
      vertices g ''A'' = Some 0 \<and> edgeStore g = [?e]"
    by (simp add: build_defs example_defs)
  then obtain g where g: "makeDependencyGraph ?s exampleOptions [''B'', ''A''] = Inr g"
    and va: "vertices g ''A'' = Some 0" and es: "edgeStore g = [?e]" by blast
  from property_names_label_the_edge [OF g vo ign i last D]
  obtain j where j: "vertices g ''A'' = Some j"
    and all: "\<forall>e\<in>set (edgeStore g).
              isDependencyEdge e \<and> edge_to e = Some 1 \<and> edge_from e = Some j \<longrightarrow>
              (\<forall>P ds. (P, ds) \<in> set (PropertyDependencies (?s ! 1)) \<and> ''A'' \<in> set ds \<longrightarrow>
                 P \<in> set (labels e))"
    by blast
  from j va have j0: "j = 0" by simp
  have mem: "edgeStore g ! 0 \<in> set (edgeStore g)" unfolding es by simp
  have ep: "isDependencyEdge (edgeStore g ! 0) \<and> edge_to (edgeStore g ! 0) = Some 1 \<and>
      edge_from (edgeStore g ! 0) = Some j" unfolding es j0 by simp
  note lab = all [rule_format, OF mem ep]
  have p1: "(''input'', [''A'']) \<in> set (PropertyDependencies (?s ! 1)) \<and> ''A'' \<in> set [''A'']"
    by simp
  have p2: "(''size'', [''A'']) \<in> set (PropertyDependencies (?s ! 1)) \<and> ''A'' \<in> set [''A'']"
    by simp
  from lab [OF p1] have l1: "''input'' \<in> set (labels (edgeStore g ! 0))" .
  from lab [OF p2] have l2: "''size'' \<in> set (labels (edgeStore g ! 0))" .
  from g va es l1 l2
  have ex: "\<exists>g. makeDependencyGraph ?s exampleOptions [''B'', ''A''] = Inr g \<and>
        vertices g ''A'' = Some 0 \<and> edgeStore g = [?e] \<and>
        ''input'' \<in> set (labels (edgeStore g ! 0)) \<and>
        ''size'' \<in> set (labels (edgeStore g ! 0))"
    by (intro exI [of _ g] conjI)
  have lbl: "Label ?e = ''input, size''" by simp
  from vo ign D ex lbl show ?thesis by (intro conjI)
qed

end
